theory Spec2Isabelle
  imports Complex_Main "HOL-Library.Log_Nat"
begin

section \<open>Scalars and errors\<close>

text \<open>
  Both source files compute in C++ \<^verbatim>\<open>double\<close>. The routines below are written over
  a record of the scalar operations and constants the source uses, so that one and the
  same translation of a routine can be read with exact arithmetic or with rounding
  arithmetic, and so that a theorem stated for every such record holds whatever the
  arithmetic of \<^verbatim>\<open>double\<close> is.

  \<^item> \<open>fzero\<close>, \<open>fone\<close>, \<open>fminus_one\<close>: the constants \<^verbatim>\<open>0.0\<close>, \<^verbatim>\<open>1.0\<close> and the
    conversion of the \<^verbatim>\<open>int\<close> value \<^verbatim>\<open>-1\<close>;
  \<^item> \<open>tol\<close>: the literal \<^verbatim>\<open>1e-10\<close>;
  \<^item> \<open>fadd\<close>, \<open>fsub\<close>, \<open>fmul\<close>, \<open>fdiv\<close>: \<^verbatim>\<open>+ - * /\<close>;
  \<^item> \<open>fabs\<close>: \<^verbatim>\<open>std::abs\<close>; \<open>fless\<close>: \<^verbatim>\<open><\<close>.
\<close>

record 'a arith =
  fzero :: 'a
  fone :: 'a
  fminus_one :: 'a
  tol :: 'a
  fadd :: "'a \<Rightarrow> 'a \<Rightarrow> 'a"
  fsub :: "'a \<Rightarrow> 'a \<Rightarrow> 'a"
  fmul :: "'a \<Rightarrow> 'a \<Rightarrow> 'a"
  fdiv :: "'a \<Rightarrow> 'a \<Rightarrow> 'a"
  fabs :: "'a \<Rightarrow> 'a"
  fless :: "'a \<Rightarrow> 'a \<Rightarrow> bool"

text \<open>The test \<^verbatim>\<open>std::abs(x) < 1e-10\<close> of both files.\<close>

definition small :: "'a arith \<Rightarrow> 'a \<Rightarrow> bool" where
  "small ar x = fless ar (fabs ar x) (tol ar)"

text \<open>Exact arithmetic on the reals.\<close>

definition exact :: "real arith" where
  "exact = \<lparr>fzero = 0, fone = 1, fminus_one = - 1, tol = 1 / 10 ^ 10,
     fadd = (+), fsub = (-), fmul = (*), fdiv = (/), fabs = abs, fless = (<)\<rparr>"

text \<open>
  The exceptions of the source, with their messages: \<^verbatim>\<open>std::invalid_argument\<close> and
  \<^verbatim>\<open>std::runtime_error\<close>. \<open>UndefinedBehaviour\<close> marks a read the C++ standard leaves
  undefined (an index outside a \<^verbatim>\<open>std::vector\<close>), where the model writes that read out.
\<close>

datatype error = InvalidArgument string | RuntimeError string | UndefinedBehaviour string

text \<open>
  A loop whose body may leave the function (a \<^verbatim>\<open>throw\<close> or a \<^verbatim>\<open>return\<close>): the
  body returns the state and, when it leaves, the value it leaves with; the loop stops at
  the first such iteration.
\<close>

fun fold_exit :: "(nat \<Rightarrow> 's \<Rightarrow> 's \<times> 'x option) \<Rightarrow> nat list \<Rightarrow> 's \<Rightarrow> 's \<times> 'x option" where
  "fold_exit f [] s = (s, None)"
| "fold_exit f (i # is) s =
     (case f i s of (s', Some x) \<Rightarrow> (s', Some x) | (s', None) \<Rightarrow> fold_exit f is s')"

section \<open>matrix.cpp: free functions on nested vectors\<close>

text \<open>
  \<^verbatim>\<open>using Matrix = std::vector<std::vector<double>>; using Vector = std::vector<double>;\<close>
  A \<^verbatim>\<open>for (size_t i = lo; i < hi; ++i)\<close> whose bounds the body does not change is
  \<open>fold body [lo..<hi]\<close>. An index read \<open>m ! i ! j\<close> outside the vector is undefined in
  the source and unspecified here; the theorems below are about rectangular arguments,
  where every read of these routines is in range.
\<close>

type_synonym 'a Vector = "'a list"
type_synonym 'a Matrix = "'a list list"

text \<open>The assignment \<^verbatim>\<open>m[i][j] = v\<close>.\<close>

definition set2 :: "'a Matrix \<Rightarrow> nat \<Rightarrow> nat \<Rightarrow> 'a \<Rightarrow> 'a Matrix" where
  "set2 m i j v = m[i := (m ! i)[j := v]]"

text \<open>Rectangular with at least one row and one column: the invariant of the spec.\<close>

definition rectangular :: "'a Matrix \<Rightarrow> nat \<Rightarrow> nat \<Rightarrow> bool" where
  "rectangular m r c = (length m = r \<and> 0 < r \<and> 0 < c \<and> list_all (\<lambda>row. length row = c) m)"

definition matrix_multiply :: "'a arith \<Rightarrow> 'a Matrix \<Rightarrow> 'a Matrix \<Rightarrow> error + 'a Matrix" where
  "matrix_multiply ar a b =
     (if a = [] \<or> b = [] \<or> length (a ! 0) \<noteq> length b
      then Inl (InvalidArgument ''Invalid dimensions for matrix multiplication'')
      else Inr (fold (\<lambda>i. fold (\<lambda>j. fold (\<lambda>k res.
                  set2 res i j (fadd ar (res ! i ! j) (fmul ar (a ! i ! k) (b ! k ! j))))
                [0..<length b]) [0..<length (b ! 0)]) [0..<length a]
              (replicate (length a) (replicate (length (b ! 0)) (fzero ar)))))"

subsection \<open>inverse\<close>

text \<open>
  The variables of \<^verbatim>\<open>inverse\<close>: the caller's matrix behind the reference \<^verbatim>\<open>a\<close>, and the
  locals \<^verbatim>\<open>result\<close> and \<^verbatim>\<open>temp\<close>. Every statement is a function on this record.
\<close>

record 'a inverse_vars =
  inv_a :: "'a Matrix"
  inv_result :: "'a Matrix"
  inv_temp :: "'a Matrix"

text \<open>\<^verbatim>\<open>for j: temp[i][j] /= pivot; result[i][j] /= pivot;\<close>\<close>

definition inverse_scale :: "'a arith \<Rightarrow> nat \<Rightarrow> nat \<Rightarrow> 'a \<Rightarrow> 'a inverse_vars \<Rightarrow> 'a inverse_vars" where
  "inverse_scale ar n i pivot =
     fold (\<lambda>j s. s\<lparr>inv_temp := set2 (inv_temp s) i j (fdiv ar (inv_temp s ! i ! j) pivot),
                   inv_result := set2 (inv_result s) i j (fdiv ar (inv_result s ! i ! j) pivot)\<rparr>)
       [0..<n]"

text \<open>\<^verbatim>\<open>for j: temp[k][j] -= factor * temp[i][j]; result[k][j] -= factor * result[i][j];\<close>\<close>

definition inverse_row :: "'a arith \<Rightarrow> nat \<Rightarrow> nat \<Rightarrow> nat \<Rightarrow> 'a \<Rightarrow> 'a inverse_vars \<Rightarrow> 'a inverse_vars" where
  "inverse_row ar n i k factor =
     fold (\<lambda>j s. s\<lparr>inv_temp := set2 (inv_temp s) k j
                      (fsub ar (inv_temp s ! k ! j) (fmul ar factor (inv_temp s ! i ! j))),
                   inv_result := set2 (inv_result s) k j
                      (fsub ar (inv_result s ! k ! j) (fmul ar factor (inv_result s ! i ! j)))\<rparr>)
       [0..<n]"

definition inverse_eliminate :: "'a arith \<Rightarrow> nat \<Rightarrow> nat \<Rightarrow> 'a inverse_vars \<Rightarrow> 'a inverse_vars" where
  "inverse_eliminate ar n i =
     fold (\<lambda>k s. if k \<noteq> i then inverse_row ar n i k (inv_temp s ! k ! i) s else s) [0..<n]"

text \<open>The body of the loop over the pivot positions; it leaves with the exception thrown.\<close>

definition inverse_step :: "'a arith \<Rightarrow> nat \<Rightarrow> nat \<Rightarrow> 'a inverse_vars \<Rightarrow> 'a inverse_vars \<times> error option" where
  "inverse_step ar n i s =
     (let pivot = inv_temp s ! i ! i in
      if small ar pivot then (s, Some (RuntimeError ''Matrix is singular''))
      else (inverse_eliminate ar n i (inverse_scale ar n i pivot s), None))"

text \<open>
  The state when the loop over the pivot positions begins: \<^verbatim>\<open>result\<close> is the identity
  matrix and \<^verbatim>\<open>temp\<close> a copy of the argument.
\<close>

definition inverse_init :: "'a arith \<Rightarrow> 'a Matrix \<Rightarrow> 'a inverse_vars" where
  "inverse_init ar a =
     (let n = length a
      in fold (\<lambda>i s. s\<lparr>inv_result := set2 (inv_result s) i i (fone ar)\<rparr>) [0..<n]
           \<lparr>inv_a = a, inv_result = replicate n (replicate n (fzero ar)), inv_temp = a\<rparr>)"

text \<open>
  The call: the caller's matrix after the call, and what the call returns or throws.
\<close>

definition inverse_exec :: "'a arith \<Rightarrow> 'a Matrix \<Rightarrow> 'a Matrix \<times> (error + 'a Matrix)" where
  "inverse_exec ar a =
     (if a = [] \<or> length a \<noteq> length (a ! 0)
      then (a, Inl (InvalidArgument ''Matrix must be square and non-empty''))
      else
        case fold_exit (inverse_step ar (length a)) [0..<length a] (inverse_init ar a) of
          (s, Some e) \<Rightarrow> (inv_a s, Inl e)
        | (s, None) \<Rightarrow> (inv_a s, Inr (inv_result s)))"

definition inverse_mat :: "'a arith \<Rightarrow> 'a Matrix \<Rightarrow> error + 'a Matrix" where
  "inverse_mat ar a = snd (inverse_exec ar a)"

subsection \<open>determinant\<close>

record 'a determinant_vars =
  det_a :: "'a Matrix"
  det_temp :: "'a Matrix"
  det_acc :: 'a

text \<open>\<^verbatim>\<open>for (j = i; j < n; ++j) temp[k][j] -= factor * temp[i][j];\<close>\<close>

definition determinant_row :: "'a arith \<Rightarrow> nat \<Rightarrow> nat \<Rightarrow> nat \<Rightarrow> 'a \<Rightarrow> 'a determinant_vars \<Rightarrow> 'a determinant_vars" where
  "determinant_row ar n i k factor =
     fold (\<lambda>j s. s\<lparr>det_temp := set2 (det_temp s) k j
                      (fsub ar (det_temp s ! k ! j) (fmul ar factor (det_temp s ! i ! j)))\<rparr>)
       [i..<n]"

definition determinant_eliminate :: "'a arith \<Rightarrow> nat \<Rightarrow> nat \<Rightarrow> 'a \<Rightarrow> 'a determinant_vars \<Rightarrow> 'a determinant_vars" where
  "determinant_eliminate ar n i pivot =
     fold (\<lambda>k s. determinant_row ar n i k (fdiv ar (det_temp s ! k ! i) pivot) s) [i + 1..<n]"

text \<open>The body of the loop over the pivot positions; it leaves with the value returned.\<close>

definition determinant_step :: "'a arith \<Rightarrow> nat \<Rightarrow> nat \<Rightarrow> 'a determinant_vars \<Rightarrow> 'a determinant_vars \<times> 'a option" where
  "determinant_step ar n i s =
     (let pivot = det_temp s ! i ! i in
      if small ar pivot then (s, Some (fzero ar))
      else
        let s' = determinant_eliminate ar n i pivot s
        in (s'\<lparr>det_acc := fmul ar (det_acc s') pivot\<rparr>, None))"

definition determinant_init :: "'a arith \<Rightarrow> 'a Matrix \<Rightarrow> 'a determinant_vars" where
  "determinant_init ar a = \<lparr>det_a = a, det_temp = a, det_acc = fone ar\<rparr>"

definition determinant_exec :: "'a arith \<Rightarrow> 'a Matrix \<Rightarrow> 'a Matrix \<times> (error + 'a)" where
  "determinant_exec ar a =
     (if a = [] \<or> length a \<noteq> length (a ! 0)
      then (a, Inl (InvalidArgument ''Matrix must be square and non-empty''))
      else
        case fold_exit (determinant_step ar (length a)) [0..<length a] (determinant_init ar a) of
          (s, Some v) \<Rightarrow> (det_a s, Inr v)
        | (s, None) \<Rightarrow> (det_a s, Inr (det_acc s)))"

definition determinant :: "'a arith \<Rightarrow> 'a Matrix \<Rightarrow> error + 'a" where
  "determinant ar a = snd (determinant_exec ar a)"

subsection \<open>dot\_product, add, subtract, transpose\<close>

definition dot_product :: "'a arith \<Rightarrow> 'a Vector \<Rightarrow> 'a Vector \<Rightarrow> error + 'a" where
  "dot_product ar a b =
     (if length a \<noteq> length b
      then Inl (InvalidArgument ''Vectors must have the same length'')
      else Inr (fold (\<lambda>i r. fadd ar r (fmul ar (a ! i) (b ! i))) [0..<length a] (fzero ar)))"

definition add :: "'a arith \<Rightarrow> 'a Matrix \<Rightarrow> 'a Matrix \<Rightarrow> error + 'a Matrix" where
  "add ar a b =
     (if length a \<noteq> length b \<or> (a = [] \<or> b = []) \<or> length (a ! 0) \<noteq> length (b ! 0)
      then Inl (InvalidArgument ''Invalid dimensions for addition'')
      else Inr (fold (\<lambda>i. fold (\<lambda>j r. set2 r i j (fadd ar (r ! i ! j) (b ! i ! j)))
                  [0..<length (a ! 0)]) [0..<length a] a))"

definition subtract :: "'a arith \<Rightarrow> 'a Matrix \<Rightarrow> 'a Matrix \<Rightarrow> error + 'a Matrix" where
  "subtract ar a b =
     (if length a \<noteq> length b \<or> (a = [] \<or> b = []) \<or> length (a ! 0) \<noteq> length (b ! 0)
      then Inl (InvalidArgument ''Invalid dimensions for subtraction'')
      else Inr (fold (\<lambda>i. fold (\<lambda>j r. set2 r i j (fsub ar (r ! i ! j) (b ! i ! j)))
                  [0..<length (a ! 0)]) [0..<length a] a))"

definition transpose_mat :: "'a arith \<Rightarrow> 'a Matrix \<Rightarrow> error + 'a Matrix" where
  "transpose_mat ar a =
     (if a = [] then Inl (InvalidArgument ''Matrix cannot be empty'')
      else Inr (fold (\<lambda>i. fold (\<lambda>j r. set2 r j i (a ! i ! j)) [0..<length (a ! 0)])
                  [0..<length a]
                  (replicate (length (a ! 0)) (replicate (length a) (fzero ar)))))"

subsection \<open>solve\<close>

record 'a solve_vars =
  sol_a :: "'a Matrix"
  sol_b :: "'a Vector"
  sol_temp :: "'a Matrix"
  sol_result :: "'a Vector"

text \<open>\<^verbatim>\<open>for (j = i; j < n; ++j) temp[i][j] /= pivot; result[i] /= pivot;\<close>\<close>

definition solve_scale :: "'a arith \<Rightarrow> nat \<Rightarrow> nat \<Rightarrow> 'a \<Rightarrow> 'a solve_vars \<Rightarrow> 'a solve_vars" where
  "solve_scale ar n i pivot s =
     (let s' = fold (\<lambda>j s. s\<lparr>sol_temp := set2 (sol_temp s) i j (fdiv ar (sol_temp s ! i ! j) pivot)\<rparr>)
                 [i..<n] s
      in s'\<lparr>sol_result := (sol_result s')[i := fdiv ar (sol_result s' ! i) pivot]\<rparr>)"

text \<open>
  \<^verbatim>\<open>for (j = i; j < n; ++j) temp[k][j] -= factor * temp[i][j]; result[k] -= factor * result[i];\<close>
\<close>

definition solve_row :: "'a arith \<Rightarrow> nat \<Rightarrow> nat \<Rightarrow> nat \<Rightarrow> 'a \<Rightarrow> 'a solve_vars \<Rightarrow> 'a solve_vars" where
  "solve_row ar n i k factor s =
     (let s' = fold (\<lambda>j s. s\<lparr>sol_temp := set2 (sol_temp s) k j
                               (fsub ar (sol_temp s ! k ! j) (fmul ar factor (sol_temp s ! i ! j)))\<rparr>)
                 [i..<n] s
      in s'\<lparr>sol_result := (sol_result s')[k := fsub ar (sol_result s' ! k)
                                                  (fmul ar factor (sol_result s' ! i))]\<rparr>)"

definition solve_eliminate :: "'a arith \<Rightarrow> nat \<Rightarrow> nat \<Rightarrow> 'a solve_vars \<Rightarrow> 'a solve_vars" where
  "solve_eliminate ar n i =
     fold (\<lambda>k s. if k \<noteq> i then solve_row ar n i k (sol_temp s ! k ! i) s else s) [0..<n]"

definition solve_step :: "'a arith \<Rightarrow> nat \<Rightarrow> nat \<Rightarrow> 'a solve_vars \<Rightarrow> 'a solve_vars \<times> error option" where
  "solve_step ar n i s =
     (let pivot = sol_temp s ! i ! i in
      if small ar pivot then (s, Some (RuntimeError ''Matrix is singular''))
      else (solve_eliminate ar n i (solve_scale ar n i pivot s), None))"

definition solve_init :: "'a Matrix \<Rightarrow> 'a Vector \<Rightarrow> 'a solve_vars" where
  "solve_init a b = \<lparr>sol_a = a, sol_b = b, sol_temp = a, sol_result = b\<rparr>"

text \<open>The call: the caller's matrix and vector after the call, and the outcome.\<close>

definition solve_exec :: "'a arith \<Rightarrow> 'a Matrix \<Rightarrow> 'a Vector \<Rightarrow> ('a Matrix \<times> 'a Vector) \<times> (error + 'a Vector)" where
  "solve_exec ar a b =
     (if a = [] \<or> length a \<noteq> length (a ! 0) \<or> length a \<noteq> length b
      then ((a, b), Inl (InvalidArgument ''Invalid dimensions for equation solving''))
      else
        case fold_exit (solve_step ar (length a)) [0..<length a] (solve_init a b) of
          (s, Some e) \<Rightarrow> ((sol_a s, sol_b s), Inl e)
        | (s, None) \<Rightarrow> ((sol_a s, sol_b s), Inr (sol_result s)))"

definition solve :: "'a arith \<Rightarrow> 'a Matrix \<Rightarrow> 'a Vector \<Rightarrow> error + 'a Vector" where
  "solve ar a b = snd (solve_exec ar a b)"

subsection \<open>The pivots an elimination meets\<close>

text \<open>
  A routine meets a small pivot when its loop reaches some iteration \<open>i\<close>, no earlier
  iteration having left the function, and the pivot \<^verbatim>\<open>temp[i][i]\<close> it reads there passes
  the test \<^verbatim>\<open>std::abs(pivot) < 1e-10\<close>.
\<close>

definition determinant_meets_small :: "'a arith \<Rightarrow> 'a Matrix \<Rightarrow> bool" where
  "determinant_meets_small ar a =
     list_ex (\<lambda>i. case fold_exit (determinant_step ar (length a)) [0..<i] (determinant_init ar a) of
                     (s, None) \<Rightarrow> small ar (det_temp s ! i ! i)
                   | (s, Some v) \<Rightarrow> False)
       [0..<length a]"

definition inverse_meets_small :: "'a arith \<Rightarrow> 'a Matrix \<Rightarrow> bool" where
  "inverse_meets_small ar a =
     list_ex (\<lambda>i. case fold_exit (inverse_step ar (length a)) [0..<i] (inverse_init ar a) of
                     (s, None) \<Rightarrow> small ar (inv_temp s ! i ! i)
                   | (s, Some e) \<Rightarrow> False)
       [0..<length a]"

definition solve_meets_small :: "'a arith \<Rightarrow> 'a Matrix \<Rightarrow> 'a Vector \<Rightarrow> bool" where
  "solve_meets_small ar a b =
     list_ex (\<lambda>i. case fold_exit (solve_step ar (length a)) [0..<i] (solve_init a b) of
                     (s, None) \<Rightarrow> small ar (sol_temp s ! i ! i)
                   | (s, Some e) \<Rightarrow> False)
       [0..<length a]"

section \<open>matrix\_ops.cpp: the class Matrix\<close>

text \<open>
  The class has the fields \<^verbatim>\<open>data\<close>, \<^verbatim>\<open>rows\<close> and \<^verbatim>\<open>cols\<close>. The sizes are
  \<^verbatim>\<open>size_t\<close>; they are natural numbers here, since a vector of \<open>2 ^ 64\<close> elements does
  not exist. The one subtraction, \<^verbatim>\<open>rows - 1\<close> and \<^verbatim>\<open>cols - 1\<close> in \<^verbatim>\<open>getMinor\<close>, is
  reached from \<^verbatim>\<open>determinant\<close> with at least three rows and columns only.
\<close>

record 'a MatrixObj =
  data :: "'a Matrix"
  rows :: nat
  cols :: nat

text \<open>\<^verbatim>\<open>Matrix(size_t r, size_t c)\<close>\<close>

definition Matrix_zero :: "'a arith \<Rightarrow> nat \<Rightarrow> nat \<Rightarrow> 'a MatrixObj" where
  "Matrix_zero ar r c = \<lparr>data = replicate r (replicate c (fzero ar)), rows = r, cols = c\<rparr>"

text \<open>
  \<^verbatim>\<open>Matrix(const std::vector<std::vector<double>>& input)\<close>: no check is made. The read
  \<^verbatim>\<open>input[0]\<close> of an empty vector is undefined in the source.
\<close>

definition Matrix_from :: "'a Matrix \<Rightarrow> error + 'a MatrixObj" where
  "Matrix_from input =
     (if input = [] then Inl (UndefinedBehaviour ''input[0] of an empty vector'')
      else Inr \<lparr>data = input, rows = length input, cols = length (input ! 0)\<rparr>)"

text \<open>The invariant the spec gives for a Matrix.\<close>

definition Matrix_invariant :: "'a MatrixObj \<Rightarrow> bool" where
  "Matrix_invariant m = rectangular (data m) (rows m) (cols m)"

text \<open>
  \<^verbatim>\<open>getMinor\<close>: the state of the loops is the minor built so far and the counters
  \<^verbatim>\<open>mi\<close> and \<^verbatim>\<open>mj\<close>; a \<^verbatim>\<open>continue\<close> leaves the state as it is.
\<close>

definition Matrix_getMinor :: "'a arith \<Rightarrow> 'a MatrixObj \<Rightarrow> nat \<Rightarrow> nat \<Rightarrow> 'a MatrixObj" where
  "Matrix_getMinor ar m row col =
     fst (fold (\<lambda>i (minor, mi, mj).
            if i = row then (minor, mi, mj)
            else
              let (minor', mj') =
                    fold (\<lambda>j (mn, mj).
                       if j = col then (mn, mj)
                       else (mn\<lparr>data := set2 (data mn) mi mj (data m ! i ! j)\<rparr>, mj + 1))
                     [0..<cols m] (minor, 0)
              in (minor', mi + 1, mj'))
          [0..<rows m] (Matrix_zero ar (rows m - 1) (cols m - 1), 0, 0))"

text \<open>
  \<^verbatim>\<open>determinant\<close> by cofactor expansion along row 0. An exception of the recursive call
  would leave the loop; the sign \<^verbatim>\<open>(j % 2 == 0 ? 1 : -1)\<close> is an \<^verbatim>\<open>int\<close> converted to
  \<^verbatim>\<open>double\<close>, and \<^verbatim>\<open>*\<close> associates to the left.
\<close>

function Matrix_determinant :: "'a arith \<Rightarrow> 'a MatrixObj \<Rightarrow> error + 'a" where
  "Matrix_determinant ar m =
     (if rows m \<noteq> cols m then Inl (InvalidArgument ''Matrix must be square for determinant'')
      else if rows m = 1 then Inr (data m ! 0 ! 0)
      else if rows m = 2
        then Inr (fsub ar (fmul ar (data m ! 0 ! 0) (data m ! 1 ! 1))
                          (fmul ar (data m ! 0 ! 1) (data m ! 1 ! 0)))
      else fold (\<lambda>j acc.
             case acc of
               Inl e \<Rightarrow> Inl e
             | Inr det \<Rightarrow>
                 (case Matrix_determinant ar (Matrix_getMinor ar m 0 j) of
                    Inl e \<Rightarrow> Inl e
                  | Inr d \<Rightarrow>
                      Inr (fadd ar det
                             (fmul ar (fmul ar (if even j then fone ar else fminus_one ar)
                                               (data m ! 0 ! j)) d))))
           [0..<cols m] (Inr (fzero ar)))"
  by pat_completeness auto

text \<open>A property that every iteration keeps holds after the loop.\<close>

lemma fold_invariant:
  assumes "\<And>x s. P s \<Longrightarrow> P (f x s)" and "P s"
  shows "P (fold f xs s)"
  using assms(2) by (induction xs arbitrary: s) (auto intro: assms(1))

lemma rows_getMinor: "rows (Matrix_getMinor ar m row col) = rows m - 1"
proof -
  let ?P = "\<lambda>(p :: 'a MatrixObj \<times> nat \<times> nat). rows (fst p) = rows m - 1"
  let ?Q = "\<lambda>(p :: 'a MatrixObj \<times> nat). rows (fst p) = rows m - 1"
  let ?inner = "\<lambda>i mi. fold (\<lambda>j (mn, mj).
                       if j = col then (mn, mj)
                       else (mn\<lparr>data := set2 (data mn) mi mj (data m ! i ! j)\<rparr>, mj + 1))
                     [0..<cols m]"
  let ?body = "\<lambda>i (minor, mi, mj).
            if i = row then (minor, mi, mj)
            else let (minor', mj') = ?inner i mi (minor, 0) in (minor', mi + 1, mj')"
  have "?P (fold ?body [0..<rows m] (Matrix_zero ar (rows m - 1) (cols m - 1), 0, 0))"
  proof (rule fold_invariant)
    show "?P (Matrix_zero ar (rows m - 1) (cols m - 1), 0, 0)"
      by (simp add: Matrix_zero_def)
  next
    fix i and s :: "'a MatrixObj \<times> nat \<times> nat"
    assume s: "?P s"
    obtain minor mi mj where [simp]: "s = (minor, mi, mj)" by (cases s) auto
    have "?Q (?inner i mi (minor, 0))"
      by (rule fold_invariant) (use s in \<open>auto split: prod.splits\<close>)
    then show "?P (?body i s)"
      using s by (auto split: prod.splits)
  qed
  then show ?thesis by (simp add: Matrix_getMinor_def)
qed

termination Matrix_determinant
  by (relation "measure (\<lambda>(ar, m). rows m)") (auto simp: rows_getMinor)

declare Matrix_determinant.simps [simp del]

text \<open>The assignment \<^verbatim>\<open>m(i, j) = v\<close> through \<^verbatim>\<open>operator()\<close>.\<close>

definition Matrix_set :: "'a MatrixObj \<Rightarrow> nat \<Rightarrow> nat \<Rightarrow> 'a \<Rightarrow> 'a MatrixObj" where
  "Matrix_set m i j v = m\<lparr>data := set2 (data m) i j v\<rparr>"

text \<open>
  The part of \<^verbatim>\<open>inverse\<close> after the determinant test: the augmented matrix, the
  Gauss-Jordan loop on it (it leaves with the exception thrown) and the extraction.
\<close>

definition Matrix_augment :: "'a arith \<Rightarrow> 'a MatrixObj \<Rightarrow> 'a MatrixObj" where
  "Matrix_augment ar m =
     fold (\<lambda>i. fold (\<lambda>j aug.
              Matrix_set (Matrix_set aug i j (data m ! i ! j)) i (j + cols m)
                (if i = j then fone ar else fzero ar))
            [0..<cols m])
       [0..<rows m] (Matrix_zero ar (rows m) (2 * cols m))"

definition Matrix_inverse_step :: "'a arith \<Rightarrow> 'a MatrixObj \<Rightarrow> nat \<Rightarrow> 'a MatrixObj \<Rightarrow> 'a MatrixObj \<times> error option" where
  "Matrix_inverse_step ar m i aug =
     (let pivot = data aug ! i ! i in
      if small ar pivot then (aug, Some (InvalidArgument ''Matrix is singular''))
      else
        let aug1 = fold (\<lambda>j g. Matrix_set g i j (fdiv ar (data g ! i ! j) pivot))
                     [0..<2 * cols m] aug
        in (fold (\<lambda>k g. if k \<noteq> i
                    then (let factor = data g ! k ! i in
                          fold (\<lambda>j g'. Matrix_set g' k j
                                  (fsub ar (data g' ! k ! j) (fmul ar factor (data g' ! i ! j))))
                            [0..<2 * cols m] g)
                    else g)
              [0..<rows m] aug1, None))"

definition Matrix_gauss_jordan :: "'a arith \<Rightarrow> 'a MatrixObj \<Rightarrow> error + 'a MatrixObj" where
  "Matrix_gauss_jordan ar m =
     (case fold_exit (Matrix_inverse_step ar m) [0..<rows m] (Matrix_augment ar m) of
        (aug, Some e) \<Rightarrow> Inl e
      | (aug, None) \<Rightarrow>
          Inr (fold (\<lambda>i. fold (\<lambda>j inv. Matrix_set inv i j (data aug ! i ! (j + cols m)))
                       [0..<cols m])
                 [0..<rows m] (Matrix_zero ar (rows m) (cols m))))"

definition Matrix_inverse :: "'a arith \<Rightarrow> 'a MatrixObj \<Rightarrow> error + 'a MatrixObj" where
  "Matrix_inverse ar m =
     (if rows m \<noteq> cols m then Inl (InvalidArgument ''Matrix must be square for inverse'')
      else
        case Matrix_determinant ar m of
          Inl e \<Rightarrow> Inl e
        | Inr det \<Rightarrow>
            if small ar det then Inl (InvalidArgument ''Matrix is singular (determinant = 0)'')
            else Matrix_gauss_jordan ar m)"

text \<open>\<^verbatim>\<open>std::vector<double> dotProduct(a, b)\<close>: the value returned is \<^verbatim>\<open>{result}\<close>.\<close>

definition dotProduct :: "'a arith \<Rightarrow> 'a Vector \<Rightarrow> 'a Vector \<Rightarrow> error + 'a Vector" where
  "dotProduct ar a b =
     (if length a \<noteq> length b
      then Inl (InvalidArgument ''Vectors must have same size for dot product'')
      else Inr [fold (\<lambda>i r. fadd ar r (fmul ar (a ! i) (b ! i))) [0..<length a] (fzero ar)])"

section \<open>IEEE 754 binary64 arithmetic\<close>

text \<open>
  The values of a \<^verbatim>\<open>double\<close>: the finite ones as the rationals they denote, the two
  infinities and NaN. The two zeros are one value here: they compare equal, and the
  routines divide by a pivot only after \<^verbatim>\<open>std::abs(pivot) < 1e-10\<close> has failed, so the
  one operation that tells them apart, a division by zero, is never reached with a
  finite pivot. Every operation rounds its exact result to the nearest value, ties to the
  even significand (53 bits, exponents from \<open>-1022\<close> to \<open>1023\<close>, subnormals below).
\<close>

datatype double = Finite rat | PlusInf | MinusInf | NaN

definition pow2 :: "int \<Rightarrow> rat" where
  "pow2 e = (if 0 \<le> e then 2 ^ nat e else 1 / 2 ^ nat (- e))"

text \<open>The nearest integer, the even one of two equally near.\<close>

definition round_even :: "rat \<Rightarrow> int" where
  "round_even x =
     (let f = \<lfloor>x\<rfloor>; d = x - of_int f in
      if d < 1 / 2 then f else if 1 / 2 < d then f + 1 else if even f then f else f + 1)"

text \<open>For \<open>0 < x\<close>, the exponent \<open>e\<close> with \<open>2 ^ e \<le> x < 2 ^ (e + 1)\<close>.\<close>

definition ilog2 :: "rat \<Rightarrow> int" where
  "ilog2 x =
     (case quotient_of x of
        (p, q) \<Rightarrow> let d = bitlen p - bitlen q in if pow2 d \<le> x then d else d - 1)"

definition round_double :: "rat \<Rightarrow> double" where
  "round_double x =
     (if x = 0 then Finite 0
      else
        let g = max (ilog2 \<bar>x\<bar> - 52) (- 1074);
            r = of_int (round_even (x / pow2 g)) * pow2 g
        in if pow2 1024 \<le> \<bar>r\<bar> then (if 0 < x then PlusInf else MinusInf) else Finite r)"

fun ieee_sign :: "double \<Rightarrow> int" where
  "ieee_sign (Finite x) = (if x < 0 then - 1 else if x = 0 then 0 else 1)"
| "ieee_sign PlusInf = 1"
| "ieee_sign MinusInf = - 1"
| "ieee_sign NaN = 0"

fun ieee_neg :: "double \<Rightarrow> double" where
  "ieee_neg (Finite x) = Finite (- x)"
| "ieee_neg PlusInf = MinusInf"
| "ieee_neg MinusInf = PlusInf"
| "ieee_neg NaN = NaN"

fun ieee_add :: "double \<Rightarrow> double \<Rightarrow> double" where
  "ieee_add (Finite x) (Finite y) = round_double (x + y)"
| "ieee_add NaN y = NaN"
| "ieee_add x NaN = NaN"
| "ieee_add PlusInf MinusInf = NaN"
| "ieee_add MinusInf PlusInf = NaN"
| "ieee_add PlusInf y = PlusInf"
| "ieee_add x PlusInf = PlusInf"
| "ieee_add MinusInf y = MinusInf"
| "ieee_add x MinusInf = MinusInf"

definition ieee_sub :: "double \<Rightarrow> double \<Rightarrow> double" where
  "ieee_sub x y = ieee_add x (ieee_neg y)"

definition ieee_signed_inf :: "int \<Rightarrow> double" where
  "ieee_signed_inf s = (if s = 0 then NaN else if 0 < s then PlusInf else MinusInf)"

fun ieee_mul :: "double \<Rightarrow> double \<Rightarrow> double" where
  "ieee_mul (Finite x) (Finite y) = round_double (x * y)"
| "ieee_mul x y = ieee_signed_inf (ieee_sign x * ieee_sign y)"

fun ieee_div :: "double \<Rightarrow> double \<Rightarrow> double" where
  "ieee_div (Finite x) (Finite y) =
     (if y = 0 then ieee_signed_inf (ieee_sign (Finite x)) else round_double (x / y))"
| "ieee_div NaN y = NaN"
| "ieee_div x NaN = NaN"
| "ieee_div (Finite x) y = Finite 0"
| "ieee_div x (Finite y) = ieee_signed_inf (ieee_sign x * (if y < 0 then - 1 else 1))"
| "ieee_div x y = NaN"

fun ieee_abs :: "double \<Rightarrow> double" where
  "ieee_abs (Finite x) = Finite \<bar>x\<bar>"
| "ieee_abs NaN = NaN"
| "ieee_abs x = PlusInf"

fun ieee_less :: "double \<Rightarrow> double \<Rightarrow> bool" where
  "ieee_less (Finite x) (Finite y) = (x < y)"
| "ieee_less NaN y = False"
| "ieee_less x NaN = False"
| "ieee_less x MinusInf = False"
| "ieee_less PlusInf y = False"
| "ieee_less x y = True"

definition ieee :: "double arith" where
  "ieee = \<lparr>fzero = Finite 0, fone = Finite 1, fminus_one = Finite (- 1),
     tol = round_double (1 / 10 ^ 10),
     fadd = ieee_add, fsub = ieee_sub, fmul = ieee_mul, fdiv = ieee_div,
     fabs = ieee_abs, fless = ieee_less\<rparr>"

subsection \<open>Rounding of representable values\<close>

lemma pow2_powi: "pow2 e = 2 powi e"
  by (simp add: pow2_def power_int_def field_simps)

lemma pow2_pos [simp]: "0 < pow2 e"
  by (simp add: pow2_powi)

lemma pow2_add: "pow2 (a + b) = pow2 a * pow2 b"
  by (simp add: pow2_powi power_int_add)

lemma pow2_diff: "pow2 (a - b) = pow2 a / pow2 b"
  by (simp add: pow2_powi power_int_diff)

lemma pow2_mono: "a \<le> b \<Longrightarrow> pow2 a \<le> pow2 b"
  by (simp add: pow2_powi power_int_increasing)

lemma pow2_less_cancel: "pow2 a < pow2 b \<Longrightarrow> a < b"
  using pow2_mono[of b a] by (cases "a < b") auto

lemma pow2_nat: "pow2 (int n) = 2 ^ n"
  by (simp add: pow2_def)

lemma ilog2_le:
  assumes "0 < x"
  shows "pow2 (ilog2 x) \<le> x"
proof -
  obtain p q where pq: "quotient_of x = (p, q)" by (cases "quotient_of x")
  then have q: "0 < q" and x: "x = of_int p / of_int q"
    using quotient_of_denom_pos quotient_of_div by auto
  from assms x q have p: "0 < p"
    by (simp add: zero_less_divide_iff)
  define d where "d = bitlen p - bitlen q"
  have bp: "(2::int) ^ nat (bitlen p - 1) \<le> p" and bq: "q < 2 ^ nat (bitlen q)"
    using bitlen_bounds[OF p] bitlen_bounds[OF q] by auto
  have bp1: "1 \<le> bitlen p" using p by (simp add: bitlen_alt_def)
  have "pow2 (bitlen p - 1) = of_int (2 ^ nat (bitlen p - 1))"
    using bp1 by (simp add: pow2_def)
  also have "\<dots> \<le> of_int p" using bp by (simp only: of_int_le_iff)
  finally have 1: "pow2 (bitlen p - 1) \<le> of_int p" .
  have "of_int q \<le> (of_int (2 ^ nat (bitlen q)) :: rat)"
    using bq by (simp only: of_int_le_iff)
  also have "\<dots> = pow2 (bitlen q)"
    using bitlen_nonneg[of q] by (simp add: pow2_def)
  finally have 2: "of_int q \<le> pow2 (bitlen q)" .
  have "pow2 (d - 1) = pow2 (bitlen p - 1) / pow2 (bitlen q)"
    unfolding d_def by (simp add: pow2_diff[symmetric] algebra_simps)
  also have "\<dots> \<le> of_int p / of_int q"
    using 1 2 q p by (intro frac_le) auto
  finally have "pow2 (d - 1) \<le> x" using x by simp
  then show ?thesis
    by (simp add: ilog2_def pq d_def Let_def)
qed

lemma round_even_of_int [simp]: "round_even (of_int k) = k"
  by (simp add: round_even_def)

text \<open>A value with at most 53 significant bits in the exponent range rounds to itself.\<close>

lemma round_double_representable:
  assumes k: "\<bar>k\<bar> < 2 ^ 53" and g: "- 1074 \<le> g" "g \<le> 971"
  shows "round_double (of_int k * pow2 g) = Finite (of_int k * pow2 g)"
proof (cases "k = 0")
  case True
  then show ?thesis by (simp add: round_double_def)
next
  case False
  define x where "x = of_int k * pow2 g"
  have x0: "x \<noteq> 0" using False by (simp add: x_def less_imp_neq[OF pow2_pos, symmetric])
  have ax: "\<bar>x\<bar> = of_int \<bar>k\<bar> * pow2 g"
    using pow2_pos[of g] by (simp add: x_def abs_mult abs_of_pos)
  have "of_int \<bar>k\<bar> < (of_int (2 ^ 53) :: rat)"
    using k by (simp only: of_int_less_iff)
  then have "of_int \<bar>k\<bar> < pow2 53"
    by (simp add: pow2_def)
  then have lt: "\<bar>x\<bar> < pow2 53 * pow2 g"
    unfolding ax by (rule mult_strict_right_mono) simp
  define g' where "g' = max (ilog2 \<bar>x\<bar> - 52) (- 1074)"
  have "pow2 (ilog2 \<bar>x\<bar>) \<le> \<bar>x\<bar>" using x0 by (intro ilog2_le) simp
  with lt have "pow2 (ilog2 \<bar>x\<bar>) < pow2 (53 + g)" by (simp add: pow2_add)
  then have "ilog2 \<bar>x\<bar> < 53 + g" by (rule pow2_less_cancel)
  with g have g': "g' \<le> g" by (simp add: g'_def)
  have "x / pow2 g' = of_int k * pow2 (g - g')"
    by (simp add: x_def pow2_diff)
  also have "\<dots> = of_int (k * 2 ^ nat (g - g'))"
    using g' by (simp add: pow2_def)
  finally have q: "x / pow2 g' = of_int (k * 2 ^ nat (g - g'))" .
  have r: "of_int (round_even (x / pow2 g')) * pow2 g' = x"
    unfolding q round_even_of_int using q[symmetric] less_imp_neq[OF pow2_pos[of g']] by simp
  have "pow2 53 * pow2 g \<le> pow2 53 * pow2 971"
    using pow2_mono[OF g(2)] by (intro mult_left_mono) (auto simp: less_imp_le)
  with lt have "\<bar>x\<bar> < pow2 53 * pow2 971"
    by (rule less_le_trans)
  then have "\<not> pow2 1024 \<le> \<bar>x\<bar>"
    by (simp add: pow2_add[symmetric])
  then show ?thesis
    using x0 r by (simp add: round_double_def Let_def g'_def[symmetric] x_def[symmetric])
qed

lemma round_double_exact:
  assumes "\<bar>x\<bar> < 2 ^ 33" and "x * 2 ^ 20 \<in> \<int>"
  shows "round_double x = Finite x"
proof -
  from assms(2) obtain k where k: "x * 2 ^ 20 = of_int k" by (auto elim: Ints_cases)
  then have x: "x = of_int k * pow2 (- 20)" by (simp add: pow2_def field_simps)
  have "\<bar>of_int k :: rat\<bar> < 2 ^ 33 * 2 ^ 20"
    using assms(1) k[symmetric] by (simp add: abs_mult)
  then have "(of_int \<bar>k\<bar> :: rat) < of_int (2 ^ 53)" by simp
  then have "\<bar>k\<bar> < 2 ^ 53" by (simp only: of_int_less_iff)
  then show ?thesis unfolding x by (intro round_double_representable) auto
qed

text \<open>The \<^verbatim>\<open>double\<close> nearest to \<open>1e-10\<close>.\<close>

lemma tol_ieee: "tol ieee = Finite (7737125245533627 / 2 ^ 86)"
proof -
  have "round_double (1 / 10 ^ 10) = Finite (7737125245533627 / 2 ^ 86)"
    by code_simp
  then show ?thesis by (simp add: ieee_def)
qed

section \<open>Loops that assign entries of a matrix\<close>

lemma length_set2 [simp]: "length (set2 m i j v) = length m"
  by (simp add: set2_def)

lemma length_set2_row [simp]: "length (set2 m i j v ! k) = length (m ! k)"
  by (cases "i < length m"; cases "k = i") (simp_all add: set2_def list_update_beyond)

lemma set2_nth:
  "set2 m i j v ! k ! l = (if k = i \<and> l = j \<and> i < length m \<and> j < length (m ! i) then v else m ! k ! l)"
  by (cases "i < length m"; cases "k = i"; cases "l = j"; cases "j < length (m ! i)")
    (simp_all add: set2_def list_update_beyond)

text \<open>The matrix of \<open>r\<close> rows and \<open>c\<close> columns with the entry \<open>f i j\<close> at \<open>(i, j)\<close>.\<close>

definition mk :: "nat \<Rightarrow> nat \<Rightarrow> (nat \<Rightarrow> nat \<Rightarrow> 'a) \<Rightarrow> 'a Matrix" where
  "mk r c f = map (\<lambda>i. map (f i) [0..<c]) [0..<r]"

lemma mk_nth [simp]: "i < r \<Longrightarrow> j < c \<Longrightarrow> mk r c f ! i ! j = f i j"
  by (simp add: mk_def)

lemma mk_length [simp]: "length (mk r c f) = r" "i < r \<Longrightarrow> length (mk r c f ! i) = c"
  by (simp_all add: mk_def)

lemma rectangular_mk: "0 < r \<Longrightarrow> 0 < c \<Longrightarrow> rectangular (mk r c f) r c"
  by (simp add: rectangular_def mk_def list_all_iff)

lemma rectangular_nth: "rectangular m r c \<Longrightarrow> i < r \<Longrightarrow> length (m ! i) = c"
  by (simp add: rectangular_def list_all_length)

lemma rectangular_length: "rectangular m r c \<Longrightarrow> length m = r"
  by (simp add: rectangular_def)

lemma matrix_eqI:
  assumes "length m = r" "\<And>i. i < r \<Longrightarrow> length (m ! i) = c"
    and "\<And>i j. i < r \<Longrightarrow> j < c \<Longrightarrow> m ! i ! j = f i j"
  shows "m = mk r c f"
  using assms by (intro nth_equalityI) (simp_all add: mk_def)

text \<open>
  A loop over distinct positions that assigns to each position a value which does not
  depend on the entries at the other positions of the loop: every position of the loop
  gets the value computed from the matrix before the loop, the rest stays.
\<close>

lemma fold_set2:
  fixes V :: "nat \<times> nat \<Rightarrow> 'a Matrix \<Rightarrow> 'a"
  assumes "distinct ps"
    and dep: "\<And>p m'. p \<in> set ps \<Longrightarrow> map length m' = map length m \<Longrightarrow>
          (\<And>q. q \<notin> set ps \<or> q = p \<Longrightarrow> m' ! fst q ! snd q = m ! fst q ! snd q) \<Longrightarrow>
          V p m' = V p m"
  shows "map length (fold (\<lambda>p m. set2 m (fst p) (snd p) (V p m)) ps m) = map length m
    \<and> (\<forall>k l. fold (\<lambda>p m. set2 m (fst p) (snd p) (V p m)) ps m ! k ! l
          = (if (k, l) \<in> set ps \<and> k < length m \<and> l < length (m ! k) then V (k, l) m
             else m ! k ! l))"
  using assms
proof (induction ps rule: rev_induct)
  case Nil
  then show ?case by simp
next
  case (snoc p ps)
  let ?mid = "fold (\<lambda>p m. set2 m (fst p) (snd p) (V p m)) ps m"
  have d: "distinct ps" and p: "p \<notin> set ps" using snoc.prems(1) by auto
  have IH: "map length ?mid = map length m
    \<and> (\<forall>k l. ?mid ! k ! l
          = (if (k, l) \<in> set ps \<and> k < length m \<and> l < length (m ! k) then V (k, l) m
             else m ! k ! l))"
    by (rule snoc.IH[OF d]) (rule snoc.prems(2), auto)
  from IH have ml: "map length ?mid = map length m" by (rule conjunct1)
  have len: "length ?mid = length m"
    using arg_cong[OF ml, of length] by simp
  have row: "length (?mid ! k) = length (m ! k)" if "k < length m" for k
    using arg_cong[OF ml, of "\<lambda>xs. xs ! k"] that len by simp
  have Vp: "V p ?mid = V p m"
  proof (rule snoc.prems(2))
    fix q :: "nat \<times> nat"
    assume "q \<notin> set (ps @ [p]) \<or> q = p"
    then have "q \<notin> set ps" using p by auto
    then show "?mid ! fst q ! snd q = m ! fst q ! snd q"
      using IH by (cases q) auto
  qed (use ml in auto)
  have shape: "map length (set2 ?mid (fst p) (snd p) (V p ?mid)) = map length m"
  proof (rule nth_equalityI)
    show "length (map length (set2 ?mid (fst p) (snd p) (V p ?mid))) = length (map length m)"
      by (simp add: len)
  next
    fix i assume "i < length (map length (set2 ?mid (fst p) (snd p) (V p ?mid)))"
    then show "map length (set2 ?mid (fst p) (snd p) (V p ?mid)) ! i = map length m ! i"
      by (simp add: len row)
  qed
  have "set2 ?mid (fst p) (snd p) (V p ?mid) ! k ! l
      = (if (k, l) \<in> set (ps @ [p]) \<and> k < length m \<and> l < length (m ! k) then V (k, l) m
         else m ! k ! l)" for k l
  proof (cases "(k, l) = p")
    case True
    then show ?thesis
      using p IH len row[of k] Vp by (auto simp: set2_nth)
  next
    case False
    then have "set2 ?mid (fst p) (snd p) (V p ?mid) ! k ! l = ?mid ! k ! l"
      by (cases p) (auto simp: set2_nth)
    with False IH show ?thesis by auto
  qed
  with shape show ?case by simp
qed

text \<open>Nested loops are one loop over the pairs of indices.\<close>

lemma fold_product:
  "fold (\<lambda>i. fold (F i) js) is = fold (\<lambda>(i, j). F i j) (List.product is js)"
proof (induction "is")
  case Nil
  then show ?case by simp
next
  case (Cons i "is")
  have "fold (F i) js = fold (\<lambda>(i, j). F i j) (map (Pair i) js)"
    by (simp add: fold_map comp_def)
  with Cons show ?case by simp
qed

text \<open>A loop that assigns to one entry again and again.\<close>

lemma fold_set2_entry:
  "fold (\<lambda>k m. set2 m i j (h k (m ! i ! j))) ks m = set2 m i j (fold h ks (m ! i ! j))"
proof (cases "i < length m \<and> j < length (m ! i)")
  case False
  have "set2 m' i j v = m'" if "map length m' = map length m" for m' and v :: 'a
  proof -
    have l: "length m' = length m"
      using arg_cong[OF that, of length] by simp
    moreover have "length (m' ! i) = length (m ! i)" if "i < length m"
      using arg_cong[OF \<open>map length m' = map length m\<close>, of "\<lambda>xs. xs ! i"] that l by simp
    ultimately show ?thesis
      using False by (cases "i < length m") (simp_all add: set2_def list_update_beyond)
  qed
  then have "fold (\<lambda>k m. set2 m i j (h k (m ! i ! j))) ks m = m" "set2 m i j v = m" for v
    by (induction ks) simp_all
  then show ?thesis by simp
next
  case True
  then show ?thesis
  proof (induction ks arbitrary: m)
    case Nil
    then show ?case by (simp add: set2_def)
  next
    case (Cons k ks)
    have "set2 (set2 m i j v) i j w = set2 m i j w" for v w
      using Cons.prems by (simp add: set2_def)
    moreover have "set2 m i j v ! i ! j = v" for v
      using Cons.prems by (simp add: set2_nth)
    ultimately show ?case
      using Cons.IH[of "set2 m i j (h k (m ! i ! j))"] Cons.prems by simp
  qed
qed

lemma nested_loop_own:
  fixes g :: "nat \<Rightarrow> nat \<Rightarrow> 'a \<Rightarrow> 'a" and m :: "'a Matrix"
  assumes "distinct is" "distinct js"
  defines "res \<equiv> fold (\<lambda>i. fold (\<lambda>j m. set2 m i j (g i j (m ! i ! j))) js) is m"
  shows "map length res = map length m"
    and "res ! k ! l = (if k \<in> set is \<and> l \<in> set js \<and> k < length m \<and> l < length (m ! k)
                        then g k l (m ! k ! l) else m ! k ! l)"
proof -
  let ?V = "\<lambda>p m. g (fst p) (snd p) (m ! fst p ! snd p)"
  have eq: "res = fold (\<lambda>p m. set2 m (fst p) (snd p) (?V p m)) (List.product is js) m"
    unfolding res_def fold_product by (simp add: case_prod_unfold)
  have "map length res = map length m
    \<and> (\<forall>k l. res ! k ! l
          = (if (k, l) \<in> set (List.product is js) \<and> k < length m \<and> l < length (m ! k)
             then ?V (k, l) m else m ! k ! l))"
    unfolding eq by (rule fold_set2) (simp_all add: assms(1,2) distinct_product)
  then show "map length res = map length m"
    and "res ! k ! l = (if k \<in> set is \<and> l \<in> set js \<and> k < length m \<and> l < length (m ! k)
                        then g k l (m ! k ! l) else m ! k ! l)"
    by auto
qed

lemma nested_loop_transposed:
  fixes c :: "nat \<Rightarrow> nat \<Rightarrow> 'a" and m :: "'a Matrix"
  assumes "distinct is" "distinct js"
  defines "res \<equiv> fold (\<lambda>i. fold (\<lambda>j m. set2 m j i (c i j)) js) is m"
  shows "map length res = map length m"
    and "res ! k ! l = (if l \<in> set is \<and> k \<in> set js \<and> k < length m \<and> l < length (m ! k)
                        then c l k else m ! k ! l)"
proof -
  let ?V = "\<lambda>(p :: nat \<times> nat) (m :: 'a Matrix). c (snd p) (fst p)"
  let ?ps = "map prod.swap (List.product is js)"
  have eq: "res = fold (\<lambda>p m. set2 m (fst p) (snd p) (?V p m)) ?ps m"
    unfolding res_def fold_product by (simp add: fold_map comp_def case_prod_unfold)
  have "distinct ?ps"
    by (simp add: distinct_map distinct_product assms(1,2))
  then have "map length res = map length m
    \<and> (\<forall>k l. res ! k ! l
          = (if (k, l) \<in> set ?ps \<and> k < length m \<and> l < length (m ! k)
             then ?V (k, l) m else m ! k ! l))"
    unfolding eq by (rule fold_set2) simp
  moreover have "(k, l) \<in> set ?ps \<longleftrightarrow> l \<in> set is \<and> k \<in> set js"
    by force
  ultimately show "map length res = map length m"
    and "res ! k ! l = (if l \<in> set is \<and> k \<in> set js \<and> k < length m \<and> l < length (m ! k)
                        then c l k else m ! k ! l)"
    by auto
qed

lemma same_shape:
  assumes "map length m' = map length m"
  shows "length m' = length m" and "i < length m \<Longrightarrow> length (m' ! i) = length (m ! i)"
proof -
  show l: "length m' = length m"
    using arg_cong[OF assms, of length] by simp
  show "i < length m \<Longrightarrow> length (m' ! i) = length (m ! i)"
    using arg_cong[OF assms, of "\<lambda>xs. xs ! i"] l by simp
qed

section \<open>What the entrywise routines compute\<close>

lemma rectangular_nonempty: "rectangular m r c \<Longrightarrow> m \<noteq> [] \<and> length (m ! 0) = c"
  by (auto simp: rectangular_def list_all_length)

lemma add_entries:
  assumes "rectangular a r c" "rectangular b r c"
  shows "add ar a b = Inr (mk r c (\<lambda>i j. fadd ar (a ! i ! j) (b ! i ! j)))"
proof -
  let ?res = "fold (\<lambda>i. fold (\<lambda>j m. set2 m i j (fadd ar (m ! i ! j) (b ! i ! j))) [0..<c]) [0..<r] a"
  note n = nested_loop_own[of "[0..<r]" "[0..<c]" "\<lambda>i j x. fadd ar x (b ! i ! j)" a]
  have "?res = mk r c (\<lambda>i j. fadd ar (a ! i ! j) (b ! i ! j))"
  proof (rule matrix_eqI)
    show "length ?res = r"
      using same_shape(1)[OF n(1)] assms(1) by (simp add: rectangular_length)
    show "length (?res ! i) = c" if "i < r" for i
      using same_shape(2)[OF n(1), of i] assms(1) that
      by (simp add: rectangular_length rectangular_nth)
    show "?res ! i ! j = fadd ar (a ! i ! j) (b ! i ! j)" if "i < r" "j < c" for i j
      using n(2)[of i j] assms(1) that by (simp add: rectangular_length rectangular_nth)
  qed
  then show ?thesis
    using rectangular_nonempty[OF assms(1)] rectangular_nonempty[OF assms(2)]
      rectangular_length[OF assms(1)] rectangular_length[OF assms(2)]
    by (simp add: add_def)
qed

lemma subtract_entries:
  assumes "rectangular a r c" "rectangular b r c"
  shows "subtract ar a b = Inr (mk r c (\<lambda>i j. fsub ar (a ! i ! j) (b ! i ! j)))"
proof -
  let ?res = "fold (\<lambda>i. fold (\<lambda>j m. set2 m i j (fsub ar (m ! i ! j) (b ! i ! j))) [0..<c]) [0..<r] a"
  note n = nested_loop_own[of "[0..<r]" "[0..<c]" "\<lambda>i j x. fsub ar x (b ! i ! j)" a]
  have "?res = mk r c (\<lambda>i j. fsub ar (a ! i ! j) (b ! i ! j))"
  proof (rule matrix_eqI)
    show "length ?res = r"
      using same_shape(1)[OF n(1)] assms(1) by (simp add: rectangular_length)
    show "length (?res ! i) = c" if "i < r" for i
      using same_shape(2)[OF n(1), of i] assms(1) that
      by (simp add: rectangular_length rectangular_nth)
    show "?res ! i ! j = fsub ar (a ! i ! j) (b ! i ! j)" if "i < r" "j < c" for i j
      using n(2)[of i j] assms(1) that by (simp add: rectangular_length rectangular_nth)
  qed
  then show ?thesis
    using rectangular_nonempty[OF assms(1)] rectangular_nonempty[OF assms(2)]
      rectangular_length[OF assms(1)] rectangular_length[OF assms(2)]
    by (simp add: subtract_def)
qed

lemma transpose_entries:
  assumes "rectangular a r c"
  shows "transpose_mat ar a = Inr (mk c r (\<lambda>j i. a ! i ! j))"
proof -
  let ?z = "replicate c (replicate r (fzero ar))"
  let ?res = "fold (\<lambda>i. fold (\<lambda>j m. set2 m j i (a ! i ! j)) [0..<c]) [0..<r] ?z"
  note n = nested_loop_transposed[of "[0..<r]" "[0..<c]" "\<lambda>i j. a ! i ! j" ?z]
  have "?res = mk c r (\<lambda>j i. a ! i ! j)"
  proof (rule matrix_eqI)
    show "length ?res = c"
      using same_shape(1)[OF n(1)] by simp
    show "length (?res ! j) = r" if "j < c" for j
      using same_shape(2)[OF n(1), of j] that by simp
    show "?res ! j ! i = a ! i ! j" if "j < c" "i < r" for j i
      using n(2)[of j i] that by simp
  qed
  then show ?thesis
    using rectangular_nonempty[OF assms] rectangular_length[OF assms]
    by (simp add: transpose_mat_def)
qed

text \<open>The entry of the product: the products are added to \<open>0.0\<close> from left to right.\<close>

definition row_col :: "'a arith \<Rightarrow> 'a Matrix \<Rightarrow> 'a Matrix \<Rightarrow> nat \<Rightarrow> nat \<Rightarrow> nat \<Rightarrow> 'a" where
  "row_col ar a b n i j = fold (\<lambda>k acc. fadd ar acc (fmul ar (a ! i ! k) (b ! k ! j))) [0..<n] (fzero ar)"

lemma multiply_entries:
  assumes "rectangular a r c" "rectangular b c d"
  shows "matrix_multiply ar a b = Inr (mk r d (row_col ar a b c))"
proof -
  let ?z = "replicate r (replicate d (fzero ar))"
  let ?g = "\<lambda>i j. fold (\<lambda>k acc. fadd ar acc (fmul ar (a ! i ! k) (b ! k ! j))) [0..<c]"
  let ?res = "fold (\<lambda>i. fold (\<lambda>j. fold (\<lambda>k res.
                  set2 res i j (fadd ar (res ! i ! j) (fmul ar (a ! i ! k) (b ! k ! j))))
                [0..<c]) [0..<d]) [0..<r] ?z"
  have inner: "fold (\<lambda>k res. set2 res i j (fadd ar (res ! i ! j) (fmul ar (a ! i ! k) (b ! k ! j))))
                 [0..<c] = (\<lambda>m. set2 m i j (?g i j (m ! i ! j)))" for i j
    by (rule ext)
      (rule fold_set2_entry[where h = "\<lambda>k acc. fadd ar acc (fmul ar (a ! i ! k) (b ! k ! j))"])
  have "?res = fold (\<lambda>i. fold (\<lambda>j m. set2 m i j (?g i j (m ! i ! j))) [0..<d]) [0..<r] ?z"
    by (simp only: inner)
  note n = nested_loop_own[of "[0..<r]" "[0..<d]" ?g ?z, folded this]
  have "?res = mk r d (row_col ar a b c)"
  proof (rule matrix_eqI)
    show "length ?res = r"
      using same_shape(1)[OF n(1)] by simp
    show "length (?res ! i) = d" if "i < r" for i
      using same_shape(2)[OF n(1), of i] that by simp
    show "?res ! i ! j = row_col ar a b c i j" if "i < r" "j < d" for i j
      using n(2)[of i j] that by (simp add: row_col_def)
  qed
  then show ?thesis
    using rectangular_nonempty[OF assms(1)] rectangular_nonempty[OF assms(2)]
      rectangular_length[OF assms(1)] rectangular_length[OF assms(2)]
    by (simp add: matrix_multiply_def)
qed

section \<open>Evaluation in the two arithmetics\<close>

lemma exact_sel:
  "fzero exact = 0" "fone exact = 1" "fminus_one exact = - 1" "tol exact = 1 / 10 ^ 10"
  "fadd exact = (+)" "fsub exact = (-)" "fmul exact = (*)" "fdiv exact = (/)"
  "fabs exact = abs" "fless exact = (<)"
  by (simp_all add: exact_def)

lemma small_exact: "small exact x = (\<bar>x\<bar> < 1 / 10 ^ 10)"
  by (simp add: small_def exact_sel)

lemma ieee_sel:
  "fzero ieee = Finite 0" "fone ieee = Finite 1" "fminus_one ieee = Finite (- 1)"
  "fadd ieee = ieee_add" "fsub ieee = ieee_sub" "fmul ieee = ieee_mul" "fdiv ieee = ieee_div"
  "fabs ieee = ieee_abs" "fless ieee = ieee_less"
  by (simp_all add: ieee_def)

lemma small_ieee: "small ieee (Finite x) = (\<bar>x\<bar> < 7737125245533627 / 2 ^ 86)"
  by (simp add: small_def tol_ieee ieee_sel)

lemmas exact_eval = exact_sel small_exact set2_def Let_def
lemmas ieee_eval = ieee_sel small_ieee set2_def round_double_exact ieee_sub_def Let_def
lemmas inverse_defs = inverse_mat_def inverse_exec_def inverse_init_def inverse_step_def
  inverse_eliminate_def inverse_row_def inverse_scale_def
lemmas determinant_defs = determinant_def determinant_exec_def determinant_init_def
  determinant_step_def determinant_eliminate_def determinant_row_def
lemmas solve_defs = solve_def solve_exec_def solve_init_def solve_step_def solve_eliminate_def
  solve_row_def solve_scale_def

section \<open>Loops that may leave the function\<close>

lemma fold_exit_append:
  "fold_exit f (xs @ ys) s =
     (case fold_exit f xs s of (s', Some x) \<Rightarrow> (s', Some x) | (s', None) \<Rightarrow> fold_exit f ys s')"
  by (induction xs arbitrary: s) (auto split: prod.splits option.splits)

section \<open>Cofactor expansion along the first row\<close>

definition del :: "nat \<Rightarrow> 'a list \<Rightarrow> 'a list" where
  "del j xs = take j xs @ drop (Suc j) xs"

function ldet :: "real list list \<Rightarrow> real" where
  "ldet [] = 1"
| "ldet (r # rs) = (\<Sum>j<length r. (- 1) ^ j * r ! j * ldet (map (del j) rs))"
  by pat_completeness auto
termination
  by (relation "measure length") auto

declare ldet.simps(2) [simp del]

lemma length_del: "j < length xs \<Longrightarrow> length (del j xs) = length xs - 1"
  by (simp add: del_def)

lemma nth_del: "(del a xs) ! b = (if b < a then xs ! b else xs ! Suc b)" if "a < length xs" "b < length xs - 1"
  using that by (auto simp: del_def nth_append min_def)

lemma del_del:
  assumes "a \<le> b" "Suc b < length xs"
  shows "del b (del a xs) = del a (del (Suc b) xs)"
proof (rule nth_equalityI)
  show "length (del b (del a xs)) = length (del a (del (Suc b) xs))"
    using assms by (simp add: length_del)
next
  fix i assume "i < length (del b (del a xs))"
  then have i: "i < length xs - 2" using assms by (simp add: length_del)
  show "del b (del a xs) ! i = del a (del (Suc b) xs) ! i"
    using assms i by (simp add: nth_del length_del)
qed

lemma del_map2: "length u = length v \<Longrightarrow> del j (map2 f u v) = map2 f (del j u) (del j v)"
  by (simp add: del_def take_zip drop_zip take_map drop_map zip_append flip: map_append)


text \<open>The row \<open>u + c * v\<close>.\<close>

definition axpy :: "real \<Rightarrow> real list \<Rightarrow> real list \<Rightarrow> real list" where
  "axpy c u v = map2 (\<lambda>x y. x + c * y) u v"

lemma length_axpy [simp]: "length (axpy c u v) = min (length u) (length v)"
  by (simp add: axpy_def)

lemma nth_axpy: "j < length u \<Longrightarrow> j < length v \<Longrightarrow> axpy c u v ! j = u ! j + c * v ! j"
  by (simp add: axpy_def)

lemma del_axpy: "length u = length v \<Longrightarrow> del j (axpy c u v) = axpy c (del j u) (del j v)"
  by (simp add: axpy_def del_map2)

lemma length_del_eq: "length u = length v \<Longrightarrow> length (del j u) = length (del j v)"
  by (simp add: del_def)

text \<open>The expansion is linear in every row.\<close>

lemma ldet_row_linear:
  assumes "k < length M" and "length u = length v"
  shows "ldet (M[k := axpy c u v]) = ldet (M[k := u]) + c * ldet (M[k := v])"
  using assms
proof (induction M arbitrary: k u v rule: ldet.induct)
  case 1
  then show ?case by simp
next
  case (2 r rs)
  define n where "n = length u"
  have n: "length u = n" "length v = n" "length (axpy c u v) = n"
    using "2.prems"(2) by (simp_all add: n_def)
  show ?case
  proof (cases k)
    case 0
    let ?L = "\<lambda>j. ldet (map (del j) rs)"
    have "(\<Sum>j<n. (- 1) ^ j * axpy c u v ! j * ?L j)
        = (\<Sum>j<n. (- 1) ^ j * u ! j * ?L j + c * ((- 1) ^ j * v ! j * ?L j))"
    proof (rule sum.cong[OF refl])
      fix j assume "j \<in> {..<n}"
      then have "axpy c u v ! j = u ! j + c * v ! j"
        by (simp add: nth_axpy n)
      then show "(- 1) ^ j * axpy c u v ! j * ?L j
          = (- 1) ^ j * u ! j * ?L j + c * ((- 1) ^ j * v ! j * ?L j)"
        by (simp only: distrib_left distrib_right mult.assoc mult.left_commute)
    qed
    also have "\<dots> = (\<Sum>j<n. (- 1) ^ j * u ! j * ?L j) + c * (\<Sum>j<n. (- 1) ^ j * v ! j * ?L j)"
      by (simp only: sum.distrib sum_distrib_left)
    finally show ?thesis
      by (simp only: 0 list_update_code(2) ldet.simps(2) n)
  next
    case (Suc k')
    let ?L = "\<lambda>w j. ldet (map (del j) (rs[k' := w]))"
    have IH: "?L (axpy c u v) j = ?L u j + c * ?L v j" if "j < length r" for j
      using "2.IH"[of j k' "del j u" "del j v"] that "2.prems" Suc
        length_del_eq[OF "2.prems"(2), of j]
      by (simp add: map_update del_axpy)
    have "(\<Sum>j<length r. (- 1) ^ j * r ! j * ?L (axpy c u v) j)
        = (\<Sum>j<length r. (- 1) ^ j * r ! j * ?L u j + c * ((- 1) ^ j * r ! j * ?L v j))"
    proof (rule sum.cong[OF refl])
      fix j assume "j \<in> {..<length r}"
      then have "?L (axpy c u v) j = ?L u j + c * ?L v j" by (simp add: IH)
      then show "(- 1) ^ j * r ! j * ?L (axpy c u v) j
          = (- 1) ^ j * r ! j * ?L u j + c * ((- 1) ^ j * r ! j * ?L v j)"
        by (simp only: distrib_left mult.assoc mult.left_commute)
    qed
    also have "\<dots> = (\<Sum>j<length r. (- 1) ^ j * r ! j * ?L u j)
                     + c * (\<Sum>j<length r. (- 1) ^ j * r ! j * ?L v j)"
      by (simp only: sum.distrib sum_distrib_left)
    finally show ?thesis
      by (simp only: Suc list_update_code(3) ldet.simps(2))
  qed
qed


section \<open>Two equal rows\<close>

lemma triangle_swap:
  fixes f :: "nat \<Rightarrow> nat \<Rightarrow> real"
  shows "(\<Sum>a<n. \<Sum>c = Suc a..<n. f a c) = (\<Sum>c<n. \<Sum>a<c. f a c)"
proof (induction n)
  case 0
  then show ?case by simp
next
  case (Suc n)
  have "(\<Sum>a<n. \<Sum>c = Suc a..<Suc n. f a c) = (\<Sum>a<n. (\<Sum>c = Suc a..<n. f a c) + f a n)"
    by (rule sum.cong[OF refl]) (simp add: atLeastLessThanSuc)
  then show ?case
    using Suc by (simp add: sum.distrib)
qed

text \<open>The minor without the columns \<open>x < y\<close>, with its sign.\<close>

definition minor2 :: "real list list \<Rightarrow> nat \<Rightarrow> nat \<Rightarrow> real" where
  "minor2 rs x y = (- 1) ^ (x + y) * ldet (map (\<lambda>row. del x (del y row)) rs)"

definition half :: "real list list \<Rightarrow> nat \<Rightarrow> real list \<Rightarrow> real list \<Rightarrow> real" where
  "half rs n r0 r1 = (\<Sum>a<n. \<Sum>c<a. r0 ! a * r1 ! c * minor2 rs c a)"

text \<open>The expansion along the first two rows.\<close>

lemma ldet_two_rows:
  assumes r0: "length r0 = n" and r1: "length r1 = n" and rs: "\<forall>row \<in> set rs. length row = n"
  shows "ldet (r0 # r1 # rs) = half rs n r0 r1 - half rs n r1 r0"
proof -
  let ?D = "\<lambda>x y. ldet (map (\<lambda>row. del x (del y row)) rs)"
  have inner: "ldet (del a r1 # map (del a) rs)
      = (\<Sum>c<a. (- 1) ^ c * r1 ! c * ?D c a) - (\<Sum>c = Suc a..<n. (- 1) ^ c * r1 ! c * ?D a c)"
    if a: "a < n" for a
  proof -
    have len: "length (del a r1) = n - 1" using a r1 by (simp add: length_del)
    have split: "{..<n - 1} = {..<a} \<union> {a..<n - 1}" using a by auto
    have low: "(\<Sum>b<a. (- 1) ^ b * del a r1 ! b * ldet (map (del b) (map (del a) rs)))
        = (\<Sum>c<a. (- 1) ^ c * r1 ! c * ?D c a)"
      by (rule sum.cong[OF refl]) (use a r1 in \<open>simp add: nth_del comp_def\<close>)
    have "(\<Sum>b = a..<n - 1. (- 1) ^ b * del a r1 ! b * ldet (map (del b) (map (del a) rs)))
        = (\<Sum>b = a..<n - 1. - ((- 1) ^ Suc b * r1 ! Suc b * ?D a (Suc b)))"
    proof (rule sum.cong[OF refl])
      fix b assume b: "b \<in> {a..<n - 1}"
      have "map (del b \<circ> del a) rs = map (\<lambda>row. del a (del (Suc b) row)) rs"
        by (rule map_cong[OF refl]) (use b rs in \<open>auto intro!: del_del\<close>)
      then have m: "map (del b) (map (del a) rs) = map (\<lambda>row. del a (del (Suc b) row)) rs"
        by (simp only: map_map)
      have d: "del a r1 ! b = r1 ! Suc b"
        using b a r1 by (simp add: nth_del)
      show "(- 1) ^ b * del a r1 ! b * ldet (map (del b) (map (del a) rs))
          = - ((- 1) ^ Suc b * r1 ! Suc b * ?D a (Suc b))"
        unfolding m d by simp
    qed
    also have "\<dots> = - (\<Sum>b = a..<n - 1. (- 1) ^ Suc b * r1 ! Suc b * ?D a (Suc b))"
      by (simp only: sum_negf)
    also have "(\<Sum>b = a..<n - 1. (- 1) ^ Suc b * r1 ! Suc b * ?D a (Suc b))
        = (\<Sum>c = Suc a..<Suc (n - 1). (- 1) ^ c * r1 ! c * ?D a c)"
      by (simp only: sum.shift_bounds_Suc_ivl)
    finally have high: "(\<Sum>b = a..<n - 1. (- 1) ^ b * del a r1 ! b * ldet (map (del b) (map (del a) rs)))
        = - (\<Sum>c = Suc a..<n. (- 1) ^ c * r1 ! c * ?D a c)"
      using a by simp
    have "ldet (del a r1 # map (del a) rs)
        = (\<Sum>b<n - 1. (- 1) ^ b * del a r1 ! b * ldet (map (del b) (map (del a) rs)))"
      by (simp only: ldet.simps(2) len)
    also have "\<dots> = (\<Sum>b<a. (- 1) ^ b * del a r1 ! b * ldet (map (del b) (map (del a) rs)))
        + (\<Sum>b = a..<n - 1. (- 1) ^ b * del a r1 ! b * ldet (map (del b) (map (del a) rs)))"
      unfolding split by (rule sum.union_disjoint) auto
    finally show ?thesis
      by (simp only: low high)
  qed
  have "ldet (r0 # r1 # rs) = (\<Sum>a<n. (- 1) ^ a * r0 ! a * ldet (del a r1 # map (del a) rs))"
    by (simp add: ldet.simps(2)[of r0] r0)
  also have "\<dots> = (\<Sum>a<n. (\<Sum>c<a. r0 ! a * r1 ! c * minor2 rs c a)
                        - (\<Sum>c = Suc a..<n. r0 ! a * r1 ! c * minor2 rs a c))"
  proof (rule sum.cong[OF refl])
    fix a assume "a \<in> {..<n}"
    then have a: "a < n" by simp
    have 1: "(- 1) ^ a * r0 ! a * (\<Sum>c<a. (- 1) ^ c * r1 ! c * ?D c a)
        = (\<Sum>c<a. r0 ! a * r1 ! c * minor2 rs c a)"
      unfolding sum_distrib_left
      by (rule sum.cong[OF refl]) (simp add: minor2_def power_add)
    have 2: "(- 1) ^ a * r0 ! a * (\<Sum>c = Suc a..<n. (- 1) ^ c * r1 ! c * ?D a c)
        = (\<Sum>c = Suc a..<n. r0 ! a * r1 ! c * minor2 rs a c)"
      unfolding sum_distrib_left
      by (rule sum.cong[OF refl]) (simp add: minor2_def power_add)
    show "(- 1) ^ a * r0 ! a * ldet (del a r1 # map (del a) rs)
        = (\<Sum>c<a. r0 ! a * r1 ! c * minor2 rs c a)
          - (\<Sum>c = Suc a..<n. r0 ! a * r1 ! c * minor2 rs a c)"
      unfolding inner[OF a] right_diff_distrib 1 2 ..
  qed
  also have "\<dots> = half rs n r0 r1 - (\<Sum>a<n. \<Sum>c = Suc a..<n. r0 ! a * r1 ! c * minor2 rs a c)"
    by (simp only: sum_subtractf half_def)
  also have "(\<Sum>a<n. \<Sum>c = Suc a..<n. r0 ! a * r1 ! c * minor2 rs a c)
      = (\<Sum>c<n. \<Sum>a<c. r0 ! a * r1 ! c * minor2 rs a c)"
    by (rule triangle_swap)
  also have "\<dots> = half rs n r1 r0"
    unfolding half_def by (intro sum.cong refl) simp
  finally show ?thesis .
qed

lemma ldet_first_rows_equal:
  assumes "length r = n" and "\<forall>row \<in> set rs. length row = n"
  shows "ldet (r # r # rs) = 0"
  using ldet_two_rows[OF assms(1) assms(1) assms(2)] by simp


definition square :: "nat \<Rightarrow> 'a list list \<Rightarrow> bool" where
  "square n M = (length M = n \<and> (\<forall>row \<in> set M. length row = n))"

lemma square_minor: "square (Suc n) (r # rs) \<Longrightarrow> j < Suc n \<Longrightarrow> square n (map (del j) rs)"
  by (auto simp: square_def length_del)

lemma square_update: "square n M \<Longrightarrow> length w = n \<Longrightarrow> square n (M[k := w])"
  by (auto simp: square_def dest: set_update_subset_insert[THEN subsetD])

text \<open>A square matrix with two equal rows has the expansion \<open>0\<close>.\<close>

lemma ldet_equal_rows:
  assumes "square n M" and "i < j" and "j < n" and "M ! i = M ! j"
  shows "ldet M = 0"
  using assms
proof (induction n arbitrary: M i j)
  case 0
  then show ?case by simp
next
  case (Suc n)
  have tail: "ldet N = 0"
    if N: "square (Suc n) N" and ij: "0 < i'" "i' < j'" "j' < Suc n" "N ! i' = N ! j'" for N i' j'
  proof -
    from N obtain r rs where Nr: "N = r # rs" and r: "length r = Suc n"
      by (cases N) (auto simp: square_def)
    have "ldet (map (del l) rs) = 0" if l: "l < Suc n" for l
    proof (rule Suc.IH[of _ "i' - 1" "j' - 1"])
      show "square n (map (del l) rs)" using N l unfolding Nr by (rule square_minor)
      show "i' - 1 < j' - 1" "j' - 1 < n" using ij by auto
      have "rs ! (i' - 1) = rs ! (j' - 1)" using ij by (simp add: Nr nth_Cons')
      moreover have "i' - 1 < length rs" "j' - 1 < length rs"
        using N ij by (auto simp: Nr square_def)
      ultimately show "map (del l) rs ! (i' - 1) = map (del l) rs ! (j' - 1)" by simp
    qed
    then show ?thesis by (simp add: Nr ldet.simps(2) r)
  qed
  from Suc.prems obtain r0 rs where M: "M = r0 # rs" and r0: "length r0 = Suc n"
    by (cases M) (auto simp: square_def)
  show ?case
  proof (cases "i = 0")
    case False
    then show ?thesis using tail[OF Suc.prems(1), of i j] Suc.prems by simp
  next
    case i0: True
    show ?thesis
    proof (cases "j = 1")
      case True
      then obtain rs' where rs: "rs = r0 # rs'"
        using Suc.prems i0 by (cases rs) (auto simp: M square_def)
      have "\<forall>row \<in> set rs'. length row = Suc n"
        using Suc.prems(1) by (simp add: M rs square_def)
      then show ?thesis unfolding M rs by (rule ldet_first_rows_equal[OF r0])
    next
      case False
      then have j: "2 \<le> j" "j < length M" "1 < length M"
        using Suc.prems i0 by (auto simp: square_def)
      define u where "u = M ! 1"
      have Mj: "M ! j = r0" using Suc.prems(4) i0 by (simp add: M)
      have lu: "length u = Suc n" "length r0 = Suc n"
        using Suc.prems(1) j r0 by (auto simp: u_def square_def)
      let ?N = "\<lambda>x y. M[1 := x, j := y]"
      have sqN: "square (Suc n) (?N x y)" if "length x = Suc n" "length y = Suc n" for x y
        using that Suc.prems(1) by (simp add: square_update)
      have z: "ldet (?N w w) = 0" if "length w = Suc n" for w
        by (rule tail[OF sqN[OF that that], of 1 j]) (use j Suc.prems(3) in auto)
      have sw: "?N x y = M[j := y, 1 := x]" for x y
        by (rule list_update_swap) (use j in auto)
      have lin1: "ldet (?N (axpy 1 x x') y) = ldet (?N x y) + ldet (?N x' y)"
        if "length x = length x'" for x x' y
        unfolding sw using ldet_row_linear[of 1 "M[j := y]" x x' 1] j that by simp
      have lin2: "ldet (?N x (axpy 1 y y')) = ldet (?N x y) + ldet (?N x y')"
        if "length y = length y'" for x y y'
        using ldet_row_linear[of j "M[1 := x]" y y' 1] j that by simp
      have "0 = ldet (?N (axpy 1 u r0) (axpy 1 u r0))"
        using z[of "axpy 1 u r0"] lu by simp
      also have "\<dots> = ldet (?N u (axpy 1 u r0)) + ldet (?N r0 (axpy 1 u r0))"
        by (rule lin1) (simp add: lu)
      also have "\<dots> = ldet (?N u u) + ldet (?N u r0) + (ldet (?N r0 u) + ldet (?N r0 r0))"
      proof -
        have e: "length u = length r0" by (simp add: lu)
        show ?thesis by (simp only: lin2[OF e])
      qed
      also have "\<dots> = ldet (?N u r0) + ldet (?N r0 u)"
        using z[of u] z[of r0] lu by simp
      finally have anti: "ldet (?N u r0) = - ldet (?N r0 u)" by simp
      have "?N u r0 = M"
        using list_update_id[of M j] list_update_id[of M 1] Mj by (simp add: u_def)
      moreover have "ldet (?N r0 u) = 0"
      proof -
        obtain r1 rs' where rs: "rs = r1 # rs'"
          using j by (cases rs) (auto simp: M)
        have "?N r0 u = r0 # r0 # rs'[j - 2 := u]"
          using j by (cases j) (auto simp: M rs numeral_2_eq_2 split: nat.splits)
        moreover have "\<forall>row \<in> set (rs'[j - 2 := u]). length row = Suc n"
          using Suc.prems(1) lu unfolding M rs square_def
          by (auto dest: set_update_subset_insert[THEN subsetD])
        ultimately show ?thesis
          using ldet_first_rows_equal[OF r0] by simp
      qed
      ultimately show ?thesis using anti by simp
    qed
  qed
qed


section \<open>Elimination below the first row\<close>

text \<open>Adding a multiple of the first row to another row does not change the expansion.\<close>

lemma ldet_add_first_row:
  assumes "square n M" and "0 < k" and "k < n"
  shows "ldet (M[k := axpy c (M ! k) (M ! 0)]) = ldet M"
proof -
  have len: "length M = n" "length (M ! k) = n" "length (M ! 0) = n"
    using assms by (auto simp: square_def)
  have "ldet (M[k := axpy c (M ! k) (M ! 0)]) = ldet (M[k := M ! k]) + c * ldet (M[k := M ! 0])"
    by (rule ldet_row_linear) (use assms len in auto)
  moreover have "ldet (M[k := M ! 0]) = 0"
  proof (rule ldet_equal_rows[of n _ 0 k])
    show "square n (M[k := M ! 0])" using assms(1) len by (simp add: square_update)
  qed (use assms len in auto)
  ultimately show ?thesis by (simp add: list_update_id)
qed

lemma ldet_add_first_row_all:
  assumes "square n (r # pre @ post)"
  shows "ldet (r # pre @ map (\<lambda>row. axpy (c row) row r) post) = ldet (r # pre @ post)"
  using assms
proof (induction post arbitrary: pre)
  case Nil
  then show ?case by simp
next
  case (Cons x post)
  let ?op = "\<lambda>row. axpy (c row) row r"
  let ?M = "r # pre @ x # post"
  have len: "length r = n" "length x = n" "Suc (length pre) < n"
    using Cons.prems by (auto simp: square_def)
  have sq: "square n (r # (pre @ [?op x]) @ post)"
    using Cons.prems len by (auto simp: square_def)
  have "ldet (r # pre @ map ?op (x # post)) = ldet (r # (pre @ [?op x]) @ map ?op post)"
    by simp
  also have "\<dots> = ldet (r # (pre @ [?op x]) @ post)"
    by (rule Cons.IH[OF sq])
  also have "r # (pre @ [?op x]) @ post = ?M[Suc (length pre) := axpy (c x) (?M ! Suc (length pre)) (?M ! 0)]"
    by (simp add: list_update_append nth_append)
  also have "ldet \<dots> = ldet ?M"
    by (rule ldet_add_first_row[OF Cons.prems]) (use len in auto)
  finally show ?case .
qed

text \<open>A square matrix whose first column is zero has the expansion \<open>0\<close>.\<close>

lemma ldet_zero_column:
  assumes "square n M" and "0 < n" and "\<forall>row \<in> set M. row ! 0 = 0"
  shows "ldet M = 0"
  using assms
proof (induction n arbitrary: M)
  case 0
  then show ?case by simp
next
  case (Suc n)
  from Suc.prems obtain r rs where M: "M = r # rs" and r: "length r = Suc n"
    by (cases M) (auto simp: square_def)
  have "(- 1) ^ j * r ! j * ldet (map (del j) rs) = 0" if j: "j < Suc n" for j
  proof (cases "j = 0")
    case True
    then show ?thesis using Suc.prems(3) by (simp add: M)
  next
    case False
    then have n: "0 < n" using j by simp
    have "ldet (map (del j) rs) = 0"
    proof (rule Suc.IH[OF _ n])
      show "square n (map (del j) rs)"
        using Suc.prems(1) j unfolding M by (rule square_minor)
      show "\<forall>row \<in> set (map (del j) rs). row ! 0 = 0"
      proof
        fix row assume "row \<in> set (map (del j) rs)"
        then obtain row' where row': "row' \<in> set rs" "row = del j row'" by auto
        then have "length row' = Suc n" "row' ! 0 = 0"
          using Suc.prems(1,3) by (auto simp: M square_def)
        then show "row ! 0 = 0"
          using False n j by (simp add: row' nth_del)
      qed
    qed
    then show ?thesis by simp
  qed
  then have "(\<Sum>j<Suc n. (- 1) ^ j * r ! j * ldet (map (del j) rs)) = 0"
    by (intro sum.neutral) auto
  then show ?case by (simp only: M ldet.simps(2) r)
qed

text \<open>
  One step of elimination: with a first entry \<open>p \<noteq> 0\<close>, the expansion is \<open>p\<close> times the
  expansion of the matrix that remains below and to the right of it.
\<close>

definition schur :: "real list \<Rightarrow> real list list \<Rightarrow> real list list" where
  "schur r rs = map (\<lambda>row. map2 (\<lambda>x y. x - row ! 0 / r ! 0 * y) (tl row) (tl r)) rs"

lemma ldet_schur:
  assumes "square (Suc n) (r # rs)" and "r ! 0 \<noteq> 0"
  shows "ldet (r # rs) = r ! 0 * ldet (schur r rs)"
proof -
  let ?op = "\<lambda>row. axpy (- (row ! 0 / r ! 0)) row r"
  let ?rs = "map ?op rs"
  have r: "length r = Suc n" and rs: "\<forall>row \<in> set rs. length row = Suc n"
    using assms(1) by (auto simp: square_def)
  have sq: "square (Suc n) (r # ?rs)"
    using assms(1) by (auto simp: square_def)
  have zero: "\<forall>row \<in> set ?rs. row ! 0 = 0"
    using r rs assms(2) by (auto simp: nth_axpy)
  have lens: "\<forall>row \<in> set ?rs. length row = Suc n"
    using r rs by auto
  have "ldet (r # rs) = ldet (r # ?rs)"
    using ldet_add_first_row_all[of "Suc n" r "[]" rs "\<lambda>row. - (row ! 0 / r ! 0)"] assms(1)
    by simp
  also have "\<dots> = (\<Sum>j<Suc n. (- 1) ^ j * r ! j * ldet (map (del j) ?rs))"
    by (simp only: ldet.simps(2) r)
  also have "\<dots> = (- 1) ^ 0 * r ! 0 * ldet (map (del 0) ?rs)
                   + (\<Sum>j \<in> {..<Suc n} - {0}. (- 1) ^ j * r ! j * ldet (map (del j) ?rs))"
    by (rule sum.remove) auto
  also have "(\<Sum>j \<in> {..<Suc n} - {0}. (- 1) ^ j * r ! j * ldet (map (del j) ?rs)) = 0"
  proof (rule sum.neutral, rule ballI)
    fix j assume j: "j \<in> {..<Suc n} - {0}"
    then have n: "0 < n" by auto
    have "ldet (map (del j) ?rs) = 0"
    proof (rule ldet_zero_column[OF _ n])
      show "square n (map (del j) ?rs)"
        using sq j by (intro square_minor[of n r]) auto
      show "\<forall>row \<in> set (map (del j) ?rs). row ! 0 = 0"
      proof
        fix row assume "row \<in> set (map (del j) ?rs)"
        then obtain row' where row': "row' \<in> set ?rs" "row = del j row'"
          unfolding set_map[of "del j"] by blast
        have "length row' = Suc n" "row' ! 0 = 0"
          using bspec[OF lens row'(1)] bspec[OF zero row'(1)] by blast+
        then show "row ! 0 = 0"
          using j n by (simp add: row'(2) nth_del)
      qed
    qed
    then show "(- 1) ^ j * r ! j * ldet (map (del j) ?rs) = 0" by simp
  qed
  also have "map (del 0) ?rs = schur r rs"
    unfolding schur_def map_map
  proof (rule map_cong[OF refl])
    fix row assume "row \<in> set rs"
    then have "length row = Suc n" using rs by simp
    then show "(del 0 \<circ> ?op) row = map2 (\<lambda>x y. x - row ! 0 / r ! 0 * y) (tl row) (tl r)"
      using r by (cases row; cases r) (simp_all add: del_def axpy_def)
  qed
  finally show ?thesis by simp
qed

section \<open>What the elimination of determinant computes\<close>

lemma fold_det_temp:
  "fold (\<lambda>j s. s\<lparr>det_temp := F j (det_temp s)\<rparr>) js s = s\<lparr>det_temp := fold F js (det_temp s)\<rparr>"
  by (induction js arbitrary: s) simp_all

lemma determinant_row_temp:
  "determinant_row ar n i k f s
     = s\<lparr>det_temp := fold (\<lambda>j m. set2 m k j (fsub ar (m ! k ! j) (fmul ar f (m ! i ! j))))
                         [i..<n] (det_temp s)\<rparr>"
  unfolding determinant_row_def by (rule fold_det_temp)

text \<open>Row \<open>k\<close> minus \<open>f\<close> times row \<open>i\<close>, from column \<open>i\<close> on.\<close>

lemma row_loop:
  fixes m :: "'a Matrix" and ar :: "'a arith" and f :: 'a and lo n k i :: nat
  assumes "k \<noteq> i"
  defines "res \<equiv> fold (\<lambda>j m. set2 m k j (fsub ar (m ! k ! j) (fmul ar f (m ! i ! j)))) [lo..<n] m"
  shows "map length res = map length m"
    and "res ! k' ! l = (if k' = k \<and> lo \<le> l \<and> l < n \<and> k < length m \<and> l < length (m ! k)
                        then fsub ar (m ! k ! l) (fmul ar f (m ! i ! l)) else m ! k' ! l)"
proof -
  let ?V = "\<lambda>(p :: nat \<times> nat) (m :: 'a Matrix). fsub ar (m ! k ! snd p) (fmul ar f (m ! i ! snd p))"
  let ?ps = "map (Pair k) [lo..<n]"
  have eq: "res = fold (\<lambda>p m. set2 m (fst p) (snd p) (?V p m)) ?ps m"
    unfolding res_def by (simp add: fold_map comp_def)
  have d: "distinct ?ps" by (simp add: distinct_map inj_on_def)
  have "map length res = map length m
    \<and> (\<forall>k' l. res ! k' ! l
          = (if (k', l) \<in> set ?ps \<and> k' < length m \<and> l < length (m ! k')
             then ?V (k', l) m else m ! k' ! l))"
    unfolding eq
  proof (rule fold_set2[OF d])
    fix p :: "nat \<times> nat" and m' :: "'a Matrix"
    assume p: "p \<in> set ?ps"
      and q: "\<And>q. q \<notin> set ?ps \<or> q = p \<Longrightarrow> m' ! fst q ! snd q = m ! fst q ! snd q"
    from p have k: "fst p = k" by auto
    have "(i, snd p) \<notin> set ?ps" using assms(1) by auto
    then have "m' ! i ! snd p = m ! i ! snd p" using q[of "(i, snd p)"] by simp
    moreover have "m' ! k ! snd p = m ! k ! snd p" using q[of p] k by simp
    ultimately show "?V p m' = ?V p m" by simp
  qed
  then show "map length res = map length m"
    and "res ! k' ! l = (if k' = k \<and> lo \<le> l \<and> l < n \<and> k < length m \<and> l < length (m ! k)
                        then fsub ar (m ! k ! l) (fmul ar f (m ! i ! l)) else m ! k' ! l)"
    by auto
qed


text \<open>The loop over the rows below the pivot row, as a loop on \<^verbatim>\<open>temp\<close> alone.\<close>

definition eliminate_below :: "'a arith \<Rightarrow> nat \<Rightarrow> nat \<Rightarrow> 'a \<Rightarrow> nat \<Rightarrow> 'a Matrix \<Rightarrow> 'a Matrix" where
  "eliminate_below ar n i p hi =
     fold (\<lambda>k m. fold (\<lambda>j m'. set2 m' k j
                 (fsub ar (m' ! k ! j) (fmul ar (fdiv ar (m ! k ! i) p) (m' ! i ! j)))) [i..<n] m)
       [Suc i..<hi]"

lemma determinant_eliminate_temp:
  "determinant_eliminate ar n i p s = s\<lparr>det_temp := eliminate_below ar n i p n (det_temp s)\<rparr>"
proof -
  let ?G = "\<lambda>k m. fold (\<lambda>j m'. set2 m' k j
         (fsub ar (m' ! k ! j) (fmul ar (fdiv ar (m ! k ! i) p) (m' ! i ! j)))) [i..<n] m"
  have "determinant_eliminate ar n i p s
      = fold (\<lambda>k s. s\<lparr>det_temp := ?G k (det_temp s)\<rparr>) [Suc i..<n] s"
    by (simp add: determinant_eliminate_def determinant_row_temp)
  also have "\<dots> = s\<lparr>det_temp := fold ?G [Suc i..<n] (det_temp s)\<rparr>"
    by (rule fold_det_temp)
  finally show ?thesis by (simp only: eliminate_below_def)
qed

lemma eliminate_below_entries:
  fixes T :: "'a Matrix"
  assumes "hi \<le> n" and len: "length T = n" "\<And>k. k < n \<Longrightarrow> length (T ! k) = n"
  shows "map length (eliminate_below ar n i p hi T) = map length T
    \<and> (\<forall>k l. eliminate_below ar n i p hi T ! k ! l
          = (if i < k \<and> k < hi \<and> i \<le> l \<and> l < n
             then fsub ar (T ! k ! l) (fmul ar (fdiv ar (T ! k ! i) p) (T ! i ! l))
             else T ! k ! l))"
  using assms(1)
proof (induction hi)
  case 0
  then show ?case by (simp add: eliminate_below_def)
next
  case (Suc hi)
  show ?case
  proof (cases "i < hi")
    case False
    then show ?thesis by (auto simp: eliminate_below_def)
  next
    case True
    let ?R = "eliminate_below ar n i p hi T"
    have IH: "map length ?R = map length T"
      "\<And>k l. ?R ! k ! l
          = (if i < k \<and> k < hi \<and> i \<le> l \<and> l < n
             then fsub ar (T ! k ! l) (fmul ar (fdiv ar (T ! k ! i) p) (T ! i ! l))
             else T ! k ! l)"
      using Suc by auto
    have lenR: "length ?R = n" "length (?R ! hi) = n"
      using same_shape[OF IH(1)] len Suc.prems by auto
    let ?f = "fdiv ar (?R ! hi ! i) p"
    let ?R' = "fold (\<lambda>j m'. set2 m' hi j (fsub ar (m' ! hi ! j) (fmul ar ?f (m' ! i ! j)))) [i..<n] ?R"
    have step: "eliminate_below ar n i p (Suc hi) T = ?R'"
      using True by (simp add: eliminate_below_def)
    have hi: "hi \<noteq> i" using True by simp
    note rl = row_loop[OF hi, of ar ?f i n ?R]
    have "map length ?R' = map length T"
      using rl(1) IH(1) by simp
    moreover have "?R' ! k ! l
          = (if i < k \<and> k < Suc hi \<and> i \<le> l \<and> l < n
             then fsub ar (T ! k ! l) (fmul ar (fdiv ar (T ! k ! i) p) (T ! i ! l))
             else T ! k ! l)" for k l
      unfolding rl(2)[of k l] using True lenR Suc.prems by (auto simp: IH(2))
    ultimately show ?thesis unfolding step by blast
  qed
qed

section \<open>The elimination of determinant and the cofactor expansion\<close>

text \<open>The part of the working matrix from row and column \<open>i\<close> on.\<close>

definition trailing :: "nat \<Rightarrow> 'a Matrix \<Rightarrow> 'a Matrix" where
  "trailing i T = map (drop i) (drop i T)"

lemma trailing_nth:
  "i + a < length T \<Longrightarrow> i + b < length (T ! (i + a)) \<Longrightarrow> trailing i T ! a ! b = T ! (i + a) ! (i + b)"
  by (simp add: trailing_def)

lemma square_trailing:
  assumes "length T = n" "\<And>k. k < n \<Longrightarrow> length (T ! k) = n"
  shows "square (n - i) (trailing i T)"
  using assms by (auto simp: square_def trailing_def in_set_conv_nth)

lemma trailing_schur:
  fixes T :: "real list list"
  assumes i: "i < n" and len: "length T = n" "\<And>k. k < n \<Longrightarrow> length (T ! k) = n"
  shows "trailing (Suc i) (eliminate_below exact n i (T ! i ! i) n T)
       = schur (hd (trailing i T)) (tl (trailing i T))"
proof -
  let ?R = "eliminate_below exact n i (T ! i ! i) n T"
  note e = eliminate_below_entries[of n n T exact i "T ! i ! i", OF le_refl len]
  have lenR: "length ?R = n" "\<And>k. k < n \<Longrightarrow> length (?R ! k) = n"
    using same_shape[OF e[THEN conjunct1]] len by auto
  have tr: "trailing i T = drop i (T ! i) # map (drop i) (drop (Suc i) T)"
    using i len by (simp add: trailing_def Cons_nth_drop_Suc[symmetric])
  show ?thesis
  proof (rule nth_equalityI)
    show l: "length (trailing (Suc i) ?R) = length (schur (hd (trailing i T)) (tl (trailing i T)))"
      by (simp add: trailing_def schur_def lenR len)
    fix a assume "a < length (trailing (Suc i) ?R)"
    then have a: "Suc i + a < n" by (simp add: trailing_def lenR)
    show "trailing (Suc i) ?R ! a = schur (hd (trailing i T)) (tl (trailing i T)) ! a"
    proof (rule nth_equalityI)
      have "length (trailing (Suc i) ?R ! a) = n - Suc i"
        using a by (simp add: trailing_def lenR)
      moreover have "length (schur (hd (trailing i T)) (tl (trailing i T)) ! a) = n - Suc i"
        unfolding tr using a i by (simp add: schur_def len)
      ultimately show "length (trailing (Suc i) ?R ! a)
          = length (schur (hd (trailing i T)) (tl (trailing i T)) ! a)"
        by simp
      fix b assume "b < length (trailing (Suc i) ?R ! a)"
      then have b: "Suc i + b < n" using a by (simp add: trailing_def lenR)
      have "trailing (Suc i) ?R ! a ! b = ?R ! (Suc i + a) ! (Suc i + b)"
        using a b by (intro trailing_nth) (simp_all add: lenR)
      also have "\<dots> = T ! (Suc i + a) ! (Suc i + b)
                       - T ! (Suc i + a) ! i / T ! i ! i * T ! i ! (Suc i + b)"
        using a b by (simp add: e[THEN conjunct2] exact_sel)
      also have "\<dots> = schur (hd (trailing i T)) (tl (trailing i T)) ! a ! b"
        using a b i by (simp add: tr schur_def len nth_tl)
      finally show "trailing (Suc i) ?R ! a ! b = schur (hd (trailing i T)) (tl (trailing i T)) ! a ! b" .
    qed
  qed
qed


text \<open>
  While no pivot is small, the loop of \<open>determinant\<close> keeps the product of the pivots read
  so far times the expansion of the part of \<^verbatim>\<open>temp\<close> that is still to be eliminated
  equal to the expansion of the argument.
\<close>

lemma determinant_loop_invariant:
  fixes a :: "real list list"
  assumes len: "length a = n" "\<And>k. k < n \<Longrightarrow> length (a ! k) = n"
    and i: "i \<le> n"
    and nosmall: "\<And>i' s. i' < i \<Longrightarrow>
        fold_exit (determinant_step exact n) [0..<i'] (determinant_init exact a) = (s, None) \<Longrightarrow>
        \<not> small exact (det_temp s ! i' ! i')"
  shows "\<exists>s. fold_exit (determinant_step exact n) [0..<i] (determinant_init exact a) = (s, None)
           \<and> length (det_temp s) = n \<and> (\<forall>k<n. length (det_temp s ! k) = n)
           \<and> ldet a = det_acc s * ldet (trailing i (det_temp s))"
  using i nosmall
proof (induction i)
  case 0
  then show ?case
    using len by (simp add: determinant_init_def exact_sel trailing_def)
next
  case (Suc i)
  have "\<exists>s. fold_exit (determinant_step exact n) [0..<i] (determinant_init exact a) = (s, None)
           \<and> length (det_temp s) = n \<and> (\<forall>k<n. length (det_temp s ! k) = n)
           \<and> ldet a = det_acc s * ldet (trailing i (det_temp s))"
    by (rule Suc.IH) (use Suc.prems in auto)
  then obtain s where s: "fold_exit (determinant_step exact n) [0..<i] (determinant_init exact a) = (s, None)"
    and lenT: "length (det_temp s) = n" "\<And>k. k < n \<Longrightarrow> length (det_temp s ! k) = n"
    and inv: "ldet a = det_acc s * ldet (trailing i (det_temp s))"
    by blast
  let ?T = "det_temp s"
  let ?p = "?T ! i ! i"
  let ?R = "eliminate_below exact n i ?p n ?T"
  let ?s' = "s\<lparr>det_temp := ?R, det_acc := det_acc s * ?p\<rparr>"
  have i: "i < n" using Suc.prems(1) by simp
  have ns: "\<not> small exact ?p" using Suc.prems(2)[of i s] s by simp
  then have p0: "?p \<noteq> 0" by (auto simp: small_exact)
  have step: "determinant_step exact n i s = (?s', None)"
    using ns by (simp add: determinant_step_def determinant_eliminate_temp exact_sel Let_def)
  have run: "fold_exit (determinant_step exact n) [0..<Suc i] (determinant_init exact a) = (?s', None)"
    using s step by (simp add: fold_exit_append)
  note e = eliminate_below_entries[of n n ?T exact i ?p, OF le_refl lenT]
  have lenR: "length ?R = n" "\<And>k. k < n \<Longrightarrow> length (?R ! k) = n"
    using same_shape[OF e[THEN conjunct1]] lenT by auto
  have sq: "square (Suc (n - Suc i)) (trailing i ?T)"
    using square_trailing[of ?T n i, OF lenT] i by (simp add: Suc_diff_Suc)
  obtain r rs where tr: "trailing i ?T = r # rs"
    using sq by (cases "trailing i ?T") (auto simp: square_def)
  have r0: "r ! 0 = ?p"
    using trailing_nth[of i 0 ?T 0] i lenT by (simp add: tr)
  have "ldet (trailing i ?T) = ?p * ldet (schur r rs)"
    using ldet_schur[of "n - Suc i" r rs] sq p0 by (simp add: tr r0)
  also have "schur r rs = trailing (Suc i) ?R"
    using trailing_schur[OF i lenT] by (simp add: tr)
  finally have "ldet a = det_acc ?s' * ldet (trailing (Suc i) (det_temp ?s'))"
    using inv by simp
  with run lenR show ?case by auto
qed

text \<open>
  In exact arithmetic, when the elimination of \<open>determinant\<close> meets no small pivot, what it
  returns is the cofactor expansion of the matrix.
\<close>

lemma determinant_exact_ldet:
  fixes a :: "real list list"
  assumes "rectangular a n n" and "\<not> determinant_meets_small exact a"
  shows "determinant exact a = Inr (ldet a)"
proof -
  have len: "length a = n" "\<And>k. k < n \<Longrightarrow> length (a ! k) = n"
    using assms(1) by (simp_all add: rectangular_length rectangular_nth)
  have nosmall: "\<not> small exact (det_temp s ! i' ! i')"
    if "i' < n" "fold_exit (determinant_step exact n) [0..<i'] (determinant_init exact a) = (s, None)"
    for i' s
  proof
    assume "small exact (det_temp s ! i' ! i')"
    with that have "determinant_meets_small exact a"
      unfolding determinant_meets_small_def list_ex_iff len(1)
      by (intro bexI[of _ i']) simp_all
    with assms(2) show False ..
  qed
  from determinant_loop_invariant[of a n n, OF len le_refl nosmall]
  obtain s where s: "fold_exit (determinant_step exact n) [0..<n] (determinant_init exact a) = (s, None)"
    and lenT: "length (det_temp s) = n"
    and inv: "ldet a = det_acc s * ldet (trailing n (det_temp s))"
    by blast
  have "trailing n (det_temp s) = []" using lenT by (simp add: trailing_def)
  with inv have "det_acc s = ldet a" by simp
  then show ?thesis
    using s len(1) rectangular_nonempty[OF assms(1)]
    by (simp add: determinant_def determinant_exec_def)
qed

section \<open>What \<open>getMinor\<close> builds\<close>

text \<open>The inner loop of \<open>getMinor\<close> on the data of the minor and the counter \<open>mj\<close>.\<close>

definition minor_row :: "nat \<Rightarrow> nat \<Rightarrow> (nat \<Rightarrow> 'a) \<Rightarrow> nat list \<Rightarrow> 'a Matrix \<times> nat \<Rightarrow> 'a Matrix \<times> nat" where
  "minor_row col mi src =
     fold (\<lambda>j (d, mj). if j = col then (d, mj) else (set2 d mi mj (src j), mj + 1))"

lemma getMinor_inner:
  "fold (\<lambda>j (mn, mj). if j = col then (mn, mj)
                       else (mn\<lparr>data := set2 (data mn) mi mj (src j)\<rparr>, mj + 1)) js (mn, c)
     = (mn\<lparr>data := fst (minor_row col mi src js (data mn, c))\<rparr>,
        snd (minor_row col mi src js (data mn, c)))"
  by (induction js arbitrary: mn c) (simp_all add: minor_row_def)

lemma minor_row_entries:
  fixes d :: "'a Matrix"
  shows "map length (fst (minor_row col mi src [0..<J] (d, 0))) = map length d
    \<and> snd (minor_row col mi src [0..<J] (d, 0)) = (if col < J then J - 1 else J)
    \<and> (\<forall>k l. fst (minor_row col mi src [0..<J] (d, 0)) ! k ! l
          = (if k = mi \<and> l < (if col < J then J - 1 else J) \<and> mi < length d \<and> l < length (d ! mi)
             then src (if l < col then l else Suc l) else d ! k ! l))"
proof (induction J)
  case 0
  then show ?case by (simp add: minor_row_def)
next
  case (Suc J)
  obtain D c where r: "minor_row col mi src [0..<J] (d, 0) = (D, c)"
    by (cases "minor_row col mi src [0..<J] (d, 0)")
  have IH: "map length D = map length d" "c = (if col < J then J - 1 else J)"
    "\<And>k l. D ! k ! l
          = (if k = mi \<and> l < c \<and> mi < length d \<and> l < length (d ! mi)
             then src (if l < col then l else Suc l) else d ! k ! l)"
    using Suc r by auto
  have step: "minor_row col mi src [0..<Suc J] (d, 0)
      = (if J = col then (D, c) else (set2 D mi c (src J), c + 1))"
    using r by (simp add: minor_row_def)
  have lenD: "length D = length d" "mi < length d \<Longrightarrow> length (D ! mi) = length (d ! mi)"
    using same_shape[OF IH(1)] by auto
  show ?case
  proof (cases "J = col")
    case True
    then show ?thesis unfolding step using IH by auto
  next
    case False
    have shape: "map length (set2 D mi c (src J)) = map length d"
      using IH(1) lenD by (intro nth_equalityI) (auto simp: same_shape[OF IH(1)])
    have "set2 D mi c (src J) ! k ! l
          = (if k = mi \<and> l < (if col < Suc J then Suc J - 1 else Suc J) \<and> mi < length d \<and> l < length (d ! mi)
             then src (if l < col then l else Suc l) else d ! k ! l)" for k l
      unfolding set2_nth using False IH(2) lenD by (auto simp: IH(3))
    then show ?thesis
      unfolding step using False shape IH(2) by auto
  qed
qed


lemma getMinor_first_row:
  fixes m :: "'a MatrixObj"
  assumes n: "rows m = n" "cols m = n" and col: "col < n"
    and len: "length (data m) = n" "\<And>k. k < n \<Longrightarrow> length (data m ! k) = n"
  shows "Matrix_getMinor ar m 0 col = \<lparr>data = map (del col) (tl (data m)), rows = n - 1, cols = n - 1\<rparr>"
proof -
  let ?skip = "\<lambda>l. if l < col then l else Suc l"
  let ?inner = "\<lambda>i mi. fold (\<lambda>j (mn, mj).
                       if j = col then (mn, mj)
                       else (mn\<lparr>data := set2 (data mn) mi mj (data m ! i ! j)\<rparr>, mj + 1))
                     [0..<n]"
  let ?body = "\<lambda>i (minor, mi, mj).
            if i = 0 then (minor, mi, mj)
            else let (minor', mj') = ?inner i mi (minor, 0) in (minor', mi + 1, mj')"
  let ?Z = "Matrix_zero ar (n - 1) (n - 1)"
  have inv: "\<exists>mn mj. fold ?body [0..<I] (?Z, 0, 0) = (mn, I - 1, mj)
      \<and> rows mn = n - 1 \<and> cols mn = n - 1
      \<and> map length (data mn) = map length (data ?Z)
      \<and> (\<forall>k l. k < I - 1 \<longrightarrow> l < n - 1 \<longrightarrow> data mn ! k ! l = data m ! Suc k ! ?skip l)"
    if "I \<le> n" for I
    using that
  proof (induction I)
    case 0
    then show ?case by (simp add: Matrix_zero_def)
  next
    case (Suc I)
    then obtain mn mj where r: "fold ?body [0..<I] (?Z, 0, 0) = (mn, I - 1, mj)"
      and f: "rows mn = n - 1" "cols mn = n - 1"
      and shape: "map length (data mn) = map length (data ?Z)"
      and ent: "\<And>k l. k < I - 1 \<Longrightarrow> l < n - 1 \<Longrightarrow> data mn ! k ! l = data m ! Suc k ! ?skip l"
      by auto
    show ?case
    proof (cases "I = 0")
      case True
      with r f shape show ?thesis by simp
    next
      case False
      let ?src = "\<lambda>j. data m ! I ! j"
      let ?D = "fst (minor_row col (I - 1) ?src [0..<n] (data mn, 0))"
      let ?mj = "snd (minor_row col (I - 1) ?src [0..<n] (data mn, 0))"
      have step: "fold ?body [0..<Suc I] (?Z, 0, 0) = (mn\<lparr>data := ?D\<rparr>, I, ?mj)"
        using r False by (simp add: getMinor_inner)
      note e = minor_row_entries[of col "I - 1" ?src n "data mn"]
      have lenmn: "length (data mn) = n - 1" "\<And>k. k < n - 1 \<Longrightarrow> length (data mn ! k) = n - 1"
        using same_shape[OF shape] by (simp_all add: Matrix_zero_def)
      have "data (mn\<lparr>data := ?D\<rparr>) ! k ! l = data m ! Suc k ! ?skip l"
        if "k < Suc I - 1" "l < n - 1" for k l
      proof (cases "k = I - 1")
        case True
        have mi: "I - 1 < n - 1" "Suc (I - 1) = I" using False Suc.prems by auto
        from True show ?thesis
          using e that col lenmn mi by simp
      next
        case neq: False
        then have "k < I - 1" using that by simp
        then show ?thesis
          using e ent[of k l] that neq by simp
      qed
      moreover have "map length (data (mn\<lparr>data := ?D\<rparr>)) = map length (data ?Z)"
        using e shape by simp
      ultimately show ?thesis
        unfolding step using f by auto
    qed
  qed
  from inv[of n] obtain mn mj where r: "fold ?body [0..<n] (?Z, 0, 0) = (mn, n - 1, mj)"
    and f: "rows mn = n - 1" "cols mn = n - 1"
    and shape: "map length (data mn) = map length (data ?Z)"
    and ent: "\<And>k l. k < n - 1 \<Longrightarrow> l < n - 1 \<Longrightarrow> data mn ! k ! l = data m ! Suc k ! ?skip l"
    by auto
  have lenmn: "length (data mn) = n - 1" "\<And>k. k < n - 1 \<Longrightarrow> length (data mn ! k) = n - 1"
    using same_shape[OF shape] by (simp_all add: Matrix_zero_def)
  have "data mn = map (del col) (tl (data m))"
  proof (rule nth_equalityI)
    show "length (data mn) = length (map (del col) (tl (data m)))"
      by (simp add: lenmn len)
    fix k assume "k < length (data mn)"
    then have k: "k < n - 1" by (simp add: lenmn)
    then have row: "tl (data m) ! k = data m ! Suc k" "length (data m ! Suc k) = n"
      using len by (simp_all add: nth_tl)
    show "data mn ! k = map (del col) (tl (data m)) ! k"
    proof (rule nth_equalityI)
      show "length (data mn ! k) = length (map (del col) (tl (data m)) ! k)"
        using k row col by (simp add: lenmn len length_del)
      fix l assume "l < length (data mn ! k)"
      then have l: "l < n - 1" using k by (simp add: lenmn)
      show "data mn ! k ! l = map (del col) (tl (data m)) ! k ! l"
        using k l row col by (simp add: ent len nth_del)
    qed
  qed
  then have "mn = \<lparr>data = map (del col) (tl (data m)), rows = n - 1, cols = n - 1\<rparr>"
    using f by simp
  then show ?thesis
    unfolding Matrix_getMinor_def n using r by simp
qed


section \<open>What the cofactor determinant computes\<close>

lemma cofactor_fold:
  fixes z :: real
  assumes "\<And>j. j < n \<Longrightarrow> F j = Inr (d j)"
  shows "fold (\<lambda>j acc. case acc of Inl e \<Rightarrow> Inl e
                 | Inr det \<Rightarrow> (case F j of Inl e \<Rightarrow> Inl e | Inr x \<Rightarrow> Inr (det + g j x)))
           [0..<n] (Inr z)
       = (Inr (z + (\<Sum>j<n. g j (d j))) :: error + real)"
  using assms by (induction n) (simp_all add: add.assoc)

lemma Matrix_determinant_large:
  assumes "rows m = cols m" and "3 \<le> rows m"
  shows "Matrix_determinant ar m
       = fold (\<lambda>j acc.
             case acc of
               Inl e \<Rightarrow> Inl e
             | Inr det \<Rightarrow>
                 (case Matrix_determinant ar (Matrix_getMinor ar m 0 j) of
                    Inl e \<Rightarrow> Inl e
                  | Inr d \<Rightarrow>
                      Inr (fadd ar det
                             (fmul ar (fmul ar (if even j then fone ar else fminus_one ar)
                                               (data m ! 0 ! j)) d))))
           [0..<cols m] (Inr (fzero ar))"
  using assms by (subst Matrix_determinant.simps) simp

lemma Matrix_determinant_exact_ldet:
  fixes m :: "real MatrixObj"
  assumes "rows m = n" "cols m = n" "0 < n"
    and "length (data m) = n" "\<And>k. k < n \<Longrightarrow> length (data m ! k) = n"
  shows "Matrix_determinant exact m = Inr (ldet (data m))"
  using assms
proof (induction n arbitrary: m)
  case 0
  then show ?case by simp
next
  case (Suc n)
  obtain r rs where d: "data m = r # rs"
    using Suc.prems(4) by (cases "data m") auto
  have r: "length r = Suc n" using Suc.prems(5)[of 0] by (simp add: d)
  have ld: "ldet (data m) = (\<Sum>j<Suc n. (- 1) ^ j * r ! j * ldet (map (del j) rs))"
    by (simp only: d ldet.simps(2) r)
  consider "n = 0" | "n = 1" | "2 \<le> n" by linarith
  then show ?case
  proof cases
    case 1
    then have "rs = []" using Suc.prems(4) by (simp add: d)
    then have "ldet (data m) = r ! 0"
      using 1 by (simp add: ld)
    then show ?thesis
      using 1 Suc.prems(1,2) by (simp add: Matrix_determinant.simps d)
  next
    case 2
    then obtain r' where rs: "rs = [r']" and r': "length r' = 2"
      using Suc.prems(4) Suc.prems(5)[of 1] by (cases rs) (auto simp: d)
    obtain a b where rab: "r = [a, b]"
      using r 2 by (cases r; cases "tl r") auto
    obtain c e where rce: "r' = [c, e]"
      using r' by (cases r'; cases "tl r'") auto
    have "ldet (data m) = a * e - b * c"
      by (simp add: d rs rab rce ldet.simps(2) del_def lessThan_Suc)
    then show ?thesis
      using 2 Suc.prems(1,2) by (simp add: Matrix_determinant.simps d rs rab rce exact_sel)
  next
    case 3
    have minor: "Matrix_determinant exact (Matrix_getMinor exact m 0 j) = Inr (ldet (map (del j) rs))"
      if j: "j < Suc n" for j
    proof -
      have g: "Matrix_getMinor exact m 0 j = \<lparr>data = map (del j) rs, rows = n, cols = n\<rparr>"
        using getMinor_first_row[of m "Suc n" j exact] Suc.prems j by (simp add: d)
      have "length (map (del j) rs ! k) = n" if "k < n" for k
        using Suc.prems(4) Suc.prems(5)[of "Suc k"] that j by (simp add: d length_del)
      then show ?thesis
        unfolding g using Suc.IH[of "\<lparr>data = map (del j) rs, rows = n, cols = n\<rparr>"] 3
          Suc.prems(4) by (simp add: d)
    qed
    have "rows m = cols m" "3 \<le> rows m" using 3 Suc.prems(1,2) by simp_all
    from Matrix_determinant_large[OF this, of exact]
    have "Matrix_determinant exact m
        = fold (\<lambda>j acc. case acc of Inl e \<Rightarrow> Inl e
                 | Inr det \<Rightarrow> (case Matrix_determinant exact (Matrix_getMinor exact m 0 j) of
                      Inl e \<Rightarrow> Inl e
                    | Inr x \<Rightarrow> Inr (det + (if even j then 1 else - 1) * r ! j * x)))
           [0..<Suc n] (Inr 0)"
      unfolding exact_sel d Suc.prems(2) nth_Cons_0 .
    also have "\<dots> = Inr (0 + (\<Sum>j<Suc n. (if even j then 1 else - 1) * r ! j * ldet (map (del j) rs)))"
      by (rule cofactor_fold) (rule minor)
    also have "(\<Sum>j<Suc n. (if even j then 1 else - 1) * r ! j * ldet (map (del j) rs))
        = (\<Sum>j<Suc n. (- 1) ^ j * r ! j * ldet (map (del j) rs))"
      by (rule sum.cong[OF refl]) (simp add: minus_one_power_iff)
    finally show ?thesis by (simp add: ld)
  qed
qed

section \<open>The pivots of the three eliminations\<close>

lemma fold_project:
  assumes "\<And>x s. p (f x s) = g x (p s)"
  shows "p (fold f xs s) = fold g xs (p s)"
  by (induction xs arbitrary: s) (simp_all add: assms)

text \<open>Row \<open>i\<close> divided by \<open>p\<close>, from column \<open>lo\<close> on.\<close>

definition scale_row :: "'a arith \<Rightarrow> nat \<Rightarrow> nat \<Rightarrow> nat \<Rightarrow> 'a \<Rightarrow> 'a Matrix \<Rightarrow> 'a Matrix" where
  "scale_row ar n i lo p = fold (\<lambda>j m. set2 m i j (fdiv ar (m ! i ! j) p)) [lo..<n]"

lemma scale_row_entries:
  fixes m :: "'a Matrix"
  shows "map length (scale_row ar n i lo p m) = map length m"
    and "scale_row ar n i lo p m ! k ! l
          = (if k = i \<and> lo \<le> l \<and> l < n \<and> i < length m \<and> l < length (m ! i)
             then fdiv ar (m ! i ! l) p else m ! k ! l)"
proof -
  let ?V = "\<lambda>(q :: nat \<times> nat) (m :: 'a Matrix). fdiv ar (m ! fst q ! snd q) p"
  let ?ps = "map (Pair i) [lo..<n]"
  have eq: "scale_row ar n i lo p m = fold (\<lambda>q m. set2 m (fst q) (snd q) (?V q m)) ?ps m"
    unfolding scale_row_def by (simp add: fold_map comp_def)
  have d: "distinct ?ps" by (simp add: distinct_map inj_on_def)
  have "map length (scale_row ar n i lo p m) = map length m
    \<and> (\<forall>k l. scale_row ar n i lo p m ! k ! l
          = (if (k, l) \<in> set ?ps \<and> k < length m \<and> l < length (m ! k)
             then ?V (k, l) m else m ! k ! l))"
    unfolding eq by (rule fold_set2[OF d]) simp
  then show "map length (scale_row ar n i lo p m) = map length m"
    and "scale_row ar n i lo p m ! k ! l
          = (if k = i \<and> lo \<le> l \<and> l < n \<and> i < length m \<and> l < length (m ! i)
             then fdiv ar (m ! i ! l) p else m ! k ! l)"
    by auto
qed

text \<open>
  From every row but row \<open>i\<close>, its entry in column \<open>i\<close> times row \<open>i\<close> is subtracted, from
  column \<open>lo\<close> on: the elimination loops of \<open>inverse\<close> and \<open>solve\<close> on \<^verbatim>\<open>temp\<close>.
\<close>

definition eliminate_others :: "'a arith \<Rightarrow> nat \<Rightarrow> nat \<Rightarrow> nat \<Rightarrow> nat \<Rightarrow> 'a Matrix \<Rightarrow> 'a Matrix" where
  "eliminate_others ar n i lo hi =
     fold (\<lambda>k m. if k \<noteq> i
                  then fold (\<lambda>j m'. set2 m' k j
                          (fsub ar (m' ! k ! j) (fmul ar (m ! k ! i) (m' ! i ! j)))) [lo..<n] m
                  else m)
       [0..<hi]"

lemma eliminate_others_entries:
  fixes T :: "'a Matrix"
  assumes "hi \<le> n" and len: "length T = n" "\<And>k. k < n \<Longrightarrow> length (T ! k) = n"
  shows "map length (eliminate_others ar n i lo hi T) = map length T
    \<and> (\<forall>k l. eliminate_others ar n i lo hi T ! k ! l
          = (if k \<noteq> i \<and> k < hi \<and> lo \<le> l \<and> l < n
             then fsub ar (T ! k ! l) (fmul ar (T ! k ! i) (T ! i ! l))
             else T ! k ! l))"
  using assms(1)
proof (induction hi)
  case 0
  then show ?case by (simp add: eliminate_others_def)
next
  case (Suc hi)
  let ?R = "eliminate_others ar n i lo hi T"
  have IH: "map length ?R = map length T"
    "\<And>k l. ?R ! k ! l
        = (if k \<noteq> i \<and> k < hi \<and> lo \<le> l \<and> l < n
           then fsub ar (T ! k ! l) (fmul ar (T ! k ! i) (T ! i ! l))
           else T ! k ! l)"
    using Suc by auto
  show ?case
  proof (cases "hi = i")
    case True
    then have "eliminate_others ar n i lo (Suc hi) T = ?R"
      by (simp add: eliminate_others_def)
    with IH True show ?thesis by auto
  next
    case False
    have lenR: "length ?R = n" "length (?R ! hi) = n"
      using same_shape[OF IH(1)] len Suc.prems by auto
    let ?f = "?R ! hi ! i"
    let ?R' = "fold (\<lambda>j m'. set2 m' hi j (fsub ar (m' ! hi ! j) (fmul ar ?f (m' ! i ! j)))) [lo..<n] ?R"
    have step: "eliminate_others ar n i lo (Suc hi) T = ?R'"
      using False by (simp add: eliminate_others_def)
    note rl = row_loop[OF False, of ar ?f lo n ?R]
    have "map length ?R' = map length T"
      using rl(1) IH(1) by simp
    moreover have "?R' ! k ! l
          = (if k \<noteq> i \<and> k < Suc hi \<and> lo \<le> l \<and> l < n
             then fsub ar (T ! k ! l) (fmul ar (T ! k ! i) (T ! i ! l))
             else T ! k ! l)" for k l
      unfolding rl(2)[of k l] using False lenR Suc.prems by (auto simp: IH(2))
    ultimately show ?thesis unfolding step by blast
  qed
qed

lemma inverse_step_temp:
  "inv_temp (inverse_eliminate ar n i (inverse_scale ar n i p s))
     = eliminate_others ar n i 0 n (scale_row ar n i 0 p (inv_temp s))"
proof -
  have 1: "inv_temp (inverse_scale ar n i p s) = scale_row ar n i 0 p (inv_temp s)" for s
    unfolding inverse_scale_def scale_row_def by (rule fold_project) simp
  have 2: "inv_temp (inverse_row ar n i k f s)
      = fold (\<lambda>j m'. set2 m' k j (fsub ar (m' ! k ! j) (fmul ar f (m' ! i ! j)))) [0..<n] (inv_temp s)"
    for k f s
    unfolding inverse_row_def by (rule fold_project) simp
  have "inv_temp (inverse_eliminate ar n i s) = eliminate_others ar n i 0 n (inv_temp s)" for s
    unfolding inverse_eliminate_def eliminate_others_def
    by (rule fold_project) (simp add: 2)
  then show ?thesis by (simp add: 1)
qed

lemma solve_step_temp:
  "sol_temp (solve_eliminate ar n i (solve_scale ar n i p s))
     = eliminate_others ar n i i n (scale_row ar n i i p (sol_temp s))"
proof -
  have 1: "sol_temp (solve_scale ar n i p s) = scale_row ar n i i p (sol_temp s)" for s
  proof -
    have "sol_temp (fold (\<lambda>j s. s\<lparr>sol_temp := set2 (sol_temp s) i j (fdiv ar (sol_temp s ! i ! j) p)\<rparr>)
                 [i..<n] s) = scale_row ar n i i p (sol_temp s)"
      unfolding scale_row_def by (rule fold_project) simp
    then show ?thesis by (simp add: solve_scale_def Let_def)
  qed
  have 2: "sol_temp (solve_row ar n i k f s)
      = fold (\<lambda>j m'. set2 m' k j (fsub ar (m' ! k ! j) (fmul ar f (m' ! i ! j)))) [i..<n] (sol_temp s)"
    for k f s
  proof -
    have "sol_temp (fold (\<lambda>j s. s\<lparr>sol_temp := set2 (sol_temp s) k j
                               (fsub ar (sol_temp s ! k ! j) (fmul ar f (sol_temp s ! i ! j)))\<rparr>)
                 [i..<n] s)
        = fold (\<lambda>j m'. set2 m' k j (fsub ar (m' ! k ! j) (fmul ar f (m' ! i ! j)))) [i..<n] (sol_temp s)"
      by (rule fold_project) simp
    then show ?thesis by (simp add: solve_row_def Let_def)
  qed
  have "sol_temp (solve_eliminate ar n i s) = eliminate_others ar n i i n (sol_temp s)" for s
    unfolding solve_eliminate_def eliminate_others_def
    by (rule fold_project) (simp add: 2)
  then show ?thesis by (simp add: 1)
qed


text \<open>Two working matrices agree from row and column \<open>i\<close> on.\<close>

definition agree_from :: "nat \<Rightarrow> nat \<Rightarrow> 'a Matrix \<Rightarrow> 'a Matrix \<Rightarrow> bool" where
  "agree_from n i A B =
     (length A = n \<and> length B = n \<and> (\<forall>k<n. length (A ! k) = n \<and> length (B ! k) = n)
      \<and> (\<forall>k l. i \<le> k \<longrightarrow> k < n \<longrightarrow> i \<le> l \<longrightarrow> l < n \<longrightarrow> A ! k ! l = B ! k ! l))"

text \<open>
  In exact arithmetic one step of the elimination of \<open>determinant\<close> and one step of the
  elimination of \<open>inverse\<close> or \<open>solve\<close> keep the parts still to be eliminated equal.
\<close>

lemma step_agree:
  fixes A B :: "real list list"
  assumes ag: "agree_from n i A B" and i: "i < n" and lo: "lo \<le> i" and p: "A ! i ! i \<noteq> 0"
  shows "agree_from n (Suc i) (eliminate_below exact n i (A ! i ! i) n A)
           (eliminate_others exact n i lo n (scale_row exact n i lo (B ! i ! i) B))"
proof -
  let ?p = "A ! i ! i"
  have lenA: "length A = n" "\<And>k. k < n \<Longrightarrow> length (A ! k) = n"
    and lenB: "length B = n" "\<And>k. k < n \<Longrightarrow> length (B ! k) = n"
    and eq: "\<And>k l. i \<le> k \<Longrightarrow> k < n \<Longrightarrow> i \<le> l \<Longrightarrow> l < n \<Longrightarrow> A ! k ! l = B ! k ! l"
    using ag by (auto simp: agree_from_def)
  have pB: "B ! i ! i = ?p" using eq[of i i] i by simp
  let ?S = "scale_row exact n i lo ?p B"
  note s = scale_row_entries[of exact n i lo ?p B]
  have lenS: "length ?S = n" "\<And>k. k < n \<Longrightarrow> length (?S ! k) = n"
    using same_shape[OF s(1)] lenB by auto
  note a = eliminate_below_entries[of n n A exact i ?p, OF le_refl lenA]
  note b = eliminate_others_entries[of n n ?S exact i lo, OF le_refl lenS]
  let ?A' = "eliminate_below exact n i ?p n A"
  let ?B' = "eliminate_others exact n i lo n ?S"
  have lenA': "length ?A' = n" "\<And>k. k < n \<Longrightarrow> length (?A' ! k) = n"
    using same_shape[OF a[THEN conjunct1]] lenA by auto
  have lenB': "length ?B' = n" "\<And>k. k < n \<Longrightarrow> length (?B' ! k) = n"
    using same_shape[OF b[THEN conjunct1]] lenS by auto
  have "?A' ! k ! l = ?B' ! k ! l" if kl: "Suc i \<le> k" "k < n" "Suc i \<le> l" "l < n" for k l
  proof -
    have "?A' ! k ! l = A ! k ! l - A ! k ! i / ?p * A ! i ! l"
      using a kl by (simp add: exact_sel)
    moreover have "?B' ! k ! l = ?S ! k ! l - ?S ! k ! i * ?S ! i ! l"
      using b kl lo by (simp add: exact_sel)
    moreover have "?S ! k ! l = B ! k ! l" "?S ! k ! i = B ! k ! i" "?S ! i ! l = B ! i ! l / ?p"
      using kl lo i lenB by (simp_all add: s(2) exact_sel)
    moreover have "A ! k ! l = B ! k ! l" "A ! k ! i = B ! k ! i" "A ! i ! l = B ! i ! l"
      using kl i by (simp_all add: eq)
    ultimately show ?thesis by simp
  qed
  then show ?thesis
    unfolding agree_from_def pB using lenA' lenB' by simp
qed

text \<open>
  A loop whose body tests the pivot of its working matrix and otherwise scales and
  eliminates like \<open>inverse\<close> and \<open>solve\<close> reaches an iteration exactly when the loop of
  \<open>determinant\<close> does, in exact arithmetic, and the two then read the same pivot.
\<close>

lemma runs_agree:
  fixes a :: "real list list" and stepB :: "nat \<Rightarrow> 's \<Rightarrow> 's \<times> 'x option"
  assumes len: "length a = n" "\<And>k. k < n \<Longrightarrow> length (a ! k) = n"
    and init: "tempB s0 = a"
    and leave: "\<And>i s. small exact (tempB s ! i ! i) \<Longrightarrow> \<exists>s' x. stepB i s = (s', Some x)"
    and stay: "\<And>i s. \<not> small exact (tempB s ! i ! i) \<Longrightarrow>
        \<exists>s'. stepB i s = (s', None)
          \<and> tempB s' = eliminate_others exact n i (lo i) n
                            (scale_row exact n i (lo i) (tempB s ! i ! i) (tempB s))"
    and lo: "\<And>i. lo i \<le> i"
    and i: "i \<le> n"
  shows "(\<exists>s. fold_exit (determinant_step exact n) [0..<i] (determinant_init exact a) = (s, None))
       = (\<exists>s. fold_exit stepB [0..<i] s0 = (s, None))"
    and "fold_exit (determinant_step exact n) [0..<i] (determinant_init exact a) = (sD, None) \<Longrightarrow>
         fold_exit stepB [0..<i] s0 = (sB, None) \<Longrightarrow> agree_from n i (det_temp sD) (tempB sB)"
proof -
  let ?runD = "\<lambda>i. fold_exit (determinant_step exact n) [0..<i] (determinant_init exact a)"
  let ?runB = "\<lambda>i. fold_exit stepB [0..<i] s0"
  have both: "((\<exists>s. ?runD i = (s, None)) = (\<exists>s. ?runB i = (s, None)))
      \<and> (\<forall>sD sB. ?runD i = (sD, None) \<longrightarrow> ?runB i = (sB, None) \<longrightarrow>
             agree_from n i (det_temp sD) (tempB sB))"
    using i
  proof (induction i)
    case 0
    then show ?case
      using len init by (simp add: agree_from_def determinant_init_def)
  next
    case (Suc i)
    then have IH: "(\<exists>s. ?runD i = (s, None)) = (\<exists>s. ?runB i = (s, None))"
      "\<And>sD sB. ?runD i = (sD, None) \<Longrightarrow> ?runB i = (sB, None) \<Longrightarrow>
          agree_from n i (det_temp sD) (tempB sB)"
      by auto
    have i: "i < n" using Suc.prems by simp
    have runD: "?runD (Suc i) = (case ?runD i of (s, Some x) \<Rightarrow> (s, Some x)
                                  | (s, None) \<Rightarrow> determinant_step exact n i s)"
      by (simp add: fold_exit_append split: prod.splits option.splits)
    have runB: "?runB (Suc i) = (case ?runB i of (s, Some x) \<Rightarrow> (s, Some x)
                                  | (s, None) \<Rightarrow> stepB i s)"
      by (simp add: fold_exit_append split: prod.splits option.splits)
    show ?case
    proof (cases "\<exists>s. ?runD i = (s, None)")
      case False
      then have "\<not> (\<exists>s. ?runB i = (s, None))" using IH(1) by simp
      with False show ?thesis
        unfolding runD runB by (auto split: prod.splits option.splits)
    next
      case True
      then obtain sD sB where sD: "?runD i = (sD, None)" and sB: "?runB i = (sB, None)"
        using IH(1) by auto
      note ag = IH(2)[OF sD sB]
      have piv: "det_temp sD ! i ! i = tempB sB ! i ! i"
        using ag i by (simp add: agree_from_def)
      show ?thesis
      proof (cases "small exact (det_temp sD ! i ! i)")
        case True
        then have "determinant_step exact n i sD = (sD, Some 0)"
          by (simp add: determinant_step_def exact_sel)
        moreover obtain s' x where "stepB i sB = (s', Some x)"
          using leave[of sB i] True piv by auto
        ultimately show ?thesis
          unfolding runD runB sD sB by simp
      next
        case False
        let ?p = "det_temp sD ! i ! i"
        have p0: "?p \<noteq> 0" using False by (auto simp: small_exact)
        let ?sD' = "sD\<lparr>det_temp := eliminate_below exact n i ?p n (det_temp sD),
                       det_acc := det_acc sD * ?p\<rparr>"
        have stepD: "determinant_step exact n i sD = (?sD', None)"
          using False by (simp add: determinant_step_def determinant_eliminate_temp exact_sel Let_def)
        obtain sB' where stepB: "stepB i sB = (sB', None)"
          and tB: "tempB sB' = eliminate_others exact n i (lo i) n
                            (scale_row exact n i (lo i) (tempB sB ! i ! i) (tempB sB))"
          using stay[of sB i] False piv by auto
        have "agree_from n (Suc i) (det_temp ?sD') (tempB sB')"
          using step_agree[OF ag i lo p0] by (simp add: tB)
        then show ?thesis
          unfolding runD runB sD sB by (simp add: stepD stepB)
      qed
    qed
  qed
  from both show "(\<exists>s. ?runD i = (s, None)) = (\<exists>s. ?runB i = (s, None))"
    and "?runD i = (sD, None) \<Longrightarrow> ?runB i = (sB, None) \<Longrightarrow> agree_from n i (det_temp sD) (tempB sB)"
    by blast+
qed


lemma pivots_agree:
  fixes a :: "real list list" and stepB :: "nat \<Rightarrow> 's \<Rightarrow> 's \<times> 'x option"
  assumes len: "length a = n" "\<And>k. k < n \<Longrightarrow> length (a ! k) = n"
    and init: "tempB start = a"
    and leave: "\<And>i s. small exact (tempB s ! i ! i) \<Longrightarrow> \<exists>s' x. stepB i s = (s', Some x)"
    and stay: "\<And>i s. \<not> small exact (tempB s ! i ! i) \<Longrightarrow>
        \<exists>s'. stepB i s = (s', None)
          \<and> tempB s' = eliminate_others exact n i (lo i) n
                            (scale_row exact n i (lo i) (tempB s ! i ! i) (tempB s))"
    and lo: "\<And>i. lo i \<le> i"
  shows "determinant_meets_small exact a
       = list_ex (\<lambda>i. case fold_exit stepB [0..<i] start of
                         (s, None) \<Rightarrow> small exact (tempB s ! i ! i)
                       | (s, Some e) \<Rightarrow> False) [0..<n]"
proof -
  let ?runD = "\<lambda>i. fold_exit (determinant_step exact n) [0..<i] (determinant_init exact a)"
  let ?runB = "\<lambda>i. fold_exit stepB [0..<i] start"
  have "(case ?runD i of (s, None) \<Rightarrow> small exact (det_temp s ! i ! i) | (s, Some v) \<Rightarrow> False)
      = (case ?runB i of (s, None) \<Rightarrow> small exact (tempB s ! i ! i) | (s, Some e) \<Rightarrow> False)"
    if i: "i < n" for i
  proof -
    note r = runs_agree[of a n tempB start stepB lo i, OF len init leave stay lo less_imp_le[OF i]]
    obtain sD xD where D: "?runD i = (sD, xD)" by (cases "?runD i")
    obtain sB xB where B: "?runB i = (sB, xB)" by (cases "?runB i")
    show ?thesis
    proof (cases xD)
      case None
      then obtain sB' where "?runB i = (sB', None)" using r(1) D by auto
      then have xB: "xB = None" using B by simp
      have "agree_from n i (det_temp sD) (tempB sB)"
        using r(2)[of sD sB] D B None xB by simp
      then have "det_temp sD ! i ! i = tempB sB ! i ! i"
        using i by (simp add: agree_from_def)
      then show ?thesis by (simp add: D B None xB)
    next
      case (Some v)
      then have "\<not> (\<exists>s. ?runB i = (s, None))" using r(1) D by auto
      then obtain e where "xB = Some e" using B by (cases xB) auto
      then show ?thesis by (simp add: D B Some)
    qed
  qed
  then show ?thesis
    unfolding determinant_meets_small_def list_ex_iff len(1) by auto
qed

text \<open>
  In exact arithmetic the three eliminations meet a small pivot on the same square
  matrices.
\<close>

lemma inverse_pivots_exact:
  fixes a :: "real list list"
  assumes "rectangular a n n"
  shows "determinant_meets_small exact a = inverse_meets_small exact a"
proof -
  have len: "length a = n" "\<And>k. k < n \<Longrightarrow> length (a ! k) = n"
    using assms rectangular_nth[OF assms] by (simp_all add: rectangular_def)
  have init: "inv_temp (inverse_init exact a) = a"
    unfolding inverse_init_def Let_def by (rule fold_invariant) simp_all
  show ?thesis
    unfolding inverse_meets_small_def len(1)
  proof (rule pivots_agree[where a = a and n = n and tempB = inv_temp
        and start = "inverse_init exact a" and stepB = "inverse_step exact n" and lo = "\<lambda>i. 0"])
    show "length a = n" by (rule len(1))
    show "length (a ! k) = n" if "k < n" for k using that by (rule len(2))
    show "inv_temp (inverse_init exact a) = a" by (rule init)
    show "\<exists>s' x. inverse_step exact n i s = (s', Some x)" if "small exact (inv_temp s ! i ! i)" for i s
      using that by (simp add: inverse_step_def)
    show "\<exists>s'. inverse_step exact n i s = (s', None)
          \<and> inv_temp s' = eliminate_others exact n i 0 n
                            (scale_row exact n i 0 (inv_temp s ! i ! i) (inv_temp s))"
      if "\<not> small exact (inv_temp s ! i ! i)" for i s
      using that by (simp add: inverse_step_def inverse_step_temp Let_def)
  qed simp
qed

lemma solve_pivots_exact:
  fixes a :: "real list list"
  assumes "rectangular a n n"
  shows "determinant_meets_small exact a = solve_meets_small exact a b"
proof -
  have len: "length a = n" "\<And>k. k < n \<Longrightarrow> length (a ! k) = n"
    using assms rectangular_nth[OF assms] by (simp_all add: rectangular_def)
  have init: "sol_temp (solve_init a b) = a"
    by (simp add: solve_init_def)
  show ?thesis
    unfolding solve_meets_small_def len(1)
  proof (rule pivots_agree[where a = a and n = n and tempB = sol_temp
        and start = "solve_init a b" and stepB = "solve_step exact n" and lo = "\<lambda>i. i"])
    show "length a = n" by (rule len(1))
    show "length (a ! k) = n" if "k < n" for k using that by (rule len(2))
    show "sol_temp (solve_init a b) = a" by (rule init)
    show "\<exists>s' x. solve_step exact n i s = (s', Some x)" if "small exact (sol_temp s ! i ! i)" for i s
      using that by (simp add: solve_step_def)
    show "\<exists>s'. solve_step exact n i s = (s', None)
          \<and> sol_temp s' = eliminate_others exact n i i n
                            (scale_row exact n i i (sol_temp s ! i ! i) (sol_temp s))"
      if "\<not> small exact (sol_temp s ! i ! i)" for i s
      using that by (simp add: solve_step_def solve_step_temp Let_def)
  qed simp
qed

section \<open>The concrete scenario\<close>

text \<open>
  C3: for \<open>A = [[1,2],[3,4]]\<close> and \<open>B = [[5,6],[7,8]]\<close>, \<open>multiply(A, B)\<close> returns exactly
  \<open>[[19,22],[43,50]]\<close>, \<open>determinant(A)\<close> returns exactly \<open>-2\<close> and \<open>inverse(A)\<close> returns
  exactly \<open>[[-2,1],[1.5,-0.5]]\<close>. This holds in binary64 arithmetic, where every value of
  the computation is representable and nothing is rounded, and in exact arithmetic.
\<close>

theorem scenario_values:
  "matrix_multiply ieee [[Finite 1, Finite 2], [Finite 3, Finite 4]]
       [[Finite 5, Finite 6], [Finite 7, Finite 8]]
     = Inr [[Finite 19, Finite 22], [Finite 43, Finite 50]]
   \<and> determinant ieee [[Finite 1, Finite 2], [Finite 3, Finite 4]] = Inr (Finite (- 2))
   \<and> inverse_mat ieee [[Finite 1, Finite 2], [Finite 3, Finite 4]]
     = Inr [[Finite (- 2), Finite 1], [Finite (3 / 2), Finite (- 1 / 2)]]
   \<and> matrix_multiply exact [[1, 2], [3, 4]] [[5, 6], [7, 8]] = Inr [[19, 22], [43, 50]]
   \<and> determinant exact [[1, 2], [3, 4]] = Inr (- 2)
   \<and> inverse_mat exact [[1, 2], [3, 4]] = Inr [[- 2, 1], [3 / 2, - 1 / 2]]"
proof -
  have 1: "matrix_multiply ieee [[Finite 1, Finite 2], [Finite 3, Finite 4]]
       [[Finite 5, Finite 6], [Finite 7, Finite 8]]
     = Inr [[Finite 19, Finite 22], [Finite 43, Finite 50]]"
    by (simp add: matrix_multiply_def ieee_eval)
  have 2: "determinant ieee [[Finite 1, Finite 2], [Finite 3, Finite 4]] = Inr (Finite (- 2))"
    by (simp add: determinant_defs ieee_eval)
  have 3: "inverse_mat ieee [[Finite 1, Finite 2], [Finite 3, Finite 4]]
     = Inr [[Finite (- 2), Finite 1], [Finite (3 / 2), Finite (- 1 / 2)]]"
    by (simp add: inverse_defs ieee_eval)
  have 4: "matrix_multiply exact [[1, 2], [3, 4]] [[5, 6], [7, 8]] = Inr [[19, 22], [43, 50]]"
    by (simp add: matrix_multiply_def exact_eval)
  have 5: "determinant exact [[1, 2], [3, 4]] = Inr (- 2)"
    by (simp add: determinant_defs exact_eval)
  have 6: "inverse_mat exact [[1, 2], [3, 4]] = Inr [[- 2, 1], [3 / 2, - 1 / 2]]"
    by (simp add: inverse_defs exact_eval)
  from 1 2 3 4 5 6 show ?thesis by blast
qed

section \<open>No row interchange\<close>

text \<open>The determinant of \<open>[[0,1],[1,0]]\<close> by cofactor expansion is \<open>-1\<close>: it is not singular.\<close>

lemma swap_matrix_regular:
  "Matrix_determinant ieee \<lparr>data = [[Finite 0, Finite 1], [Finite 1, Finite 0]], rows = 2, cols = 2\<rparr>
     = Inr (Finite (- 1))
   \<and> Matrix_determinant exact \<lparr>data = [[0, 1], [1, 0]], rows = 2, cols = 2\<rparr> = Inr (- 1)"
  by (simp add: Matrix_determinant.simps ieee_eval exact_eval)

text \<open>
  C4: no row interchange is performed. For the non-singular matrix \<open>[[0,1],[1,0]]\<close>, whose
  first diagonal entry is zero while the entry below it is \<open>1\<close>, \<open>inverse\<close> and \<open>solve\<close>
  (with any right-hand side of length 2) throw the error \<open>Matrix is singular\<close> and the
  elimination-based \<open>determinant\<close> returns \<open>0.0\<close>; in binary64 and in exact arithmetic.
\<close>

theorem no_row_interchange:
  "inverse_mat ieee [[Finite 0, Finite 1], [Finite 1, Finite 0]] = Inl (RuntimeError ''Matrix is singular'')
   \<and> solve ieee [[Finite 0, Finite 1], [Finite 1, Finite 0]] [b0, b1] = Inl (RuntimeError ''Matrix is singular'')
   \<and> determinant ieee [[Finite 0, Finite 1], [Finite 1, Finite 0]] = Inr (Finite 0)
   \<and> inverse_mat exact [[0, 1], [1, 0]] = Inl (RuntimeError ''Matrix is singular'')
   \<and> solve exact [[0, 1], [1, 0]] [c0, c1] = Inl (RuntimeError ''Matrix is singular'')
   \<and> determinant exact [[0, 1], [1, 0]] = Inr 0"
proof -
  have 1: "inverse_mat ieee [[Finite 0, Finite 1], [Finite 1, Finite 0]] = Inl (RuntimeError ''Matrix is singular'')"
    by (simp add: inverse_defs ieee_eval)
  have 2: "solve ieee [[Finite 0, Finite 1], [Finite 1, Finite 0]] [b0, b1] = Inl (RuntimeError ''Matrix is singular'')"
    by (simp add: solve_defs ieee_eval)
  have 3: "determinant ieee [[Finite 0, Finite 1], [Finite 1, Finite 0]] = Inr (Finite 0)"
    by (simp add: determinant_defs ieee_eval)
  have 4: "inverse_mat exact [[0, 1], [1, 0]] = Inl (RuntimeError ''Matrix is singular'')"
    by (simp add: inverse_defs exact_eval)
  have 5: "solve exact [[0, 1], [1, 0]] [c0, c1] = Inl (RuntimeError ''Matrix is singular'')"
    by (simp add: solve_defs exact_eval)
  have 6: "determinant exact [[0, 1], [1, 0]] = Inr 0"
    by (simp add: determinant_defs exact_eval)
  from 1 2 3 4 5 6 show ?thesis by blast
qed

section \<open>The arguments are left as they are\<close>

lemma fold_exit_invariant:
  assumes "\<And>i s. P s \<Longrightarrow> P (fst (f i s))" and "P s"
  shows "P (fst (fold_exit f xs s))"
  using assms(2)
proof (induction xs arbitrary: s)
  case Nil
  then show ?case by simp
next
  case (Cons i xs)
  from assms(1)[OF Cons.prems, of i] Cons.IH show ?case
    by (cases "f i s") (auto split: option.splits)
qed

lemma inverse_step_a: "inv_a s = a \<Longrightarrow> inv_a (fst (inverse_step ar n i s)) = a"
proof -
  assume a: "inv_a s = a"
  have scale: "inv_a (inverse_scale ar n i p s) = a" for p
    unfolding inverse_scale_def by (rule fold_invariant) (simp_all add: a)
  have row: "inv_a t = a \<Longrightarrow> inv_a (inverse_row ar n i k f t) = a" for k f t
    unfolding inverse_row_def by (rule fold_invariant) simp_all
  have "inv_a t = a \<Longrightarrow> inv_a (inverse_eliminate ar n i t) = a" for t
    unfolding inverse_eliminate_def by (rule fold_invariant) (simp_all add: row)
  with scale show ?thesis
    by (simp add: inverse_step_def Let_def a)
qed

lemma determinant_step_a: "det_a s = a \<Longrightarrow> det_a (fst (determinant_step ar n i s)) = a"
proof -
  assume a: "det_a s = a"
  have row: "det_a t = a \<Longrightarrow> det_a (determinant_row ar n i k f t) = a" for k f t
    unfolding determinant_row_def by (rule fold_invariant) simp_all
  have "det_a (determinant_eliminate ar n i p s) = a" for p
    unfolding determinant_eliminate_def by (rule fold_invariant) (simp_all add: row a)
  then show ?thesis
    by (simp add: determinant_step_def Let_def a)
qed

lemma solve_step_ab:
  "sol_a s = a \<and> sol_b s = b \<Longrightarrow>
   sol_a (fst (solve_step ar n i s)) = a \<and> sol_b (fst (solve_step ar n i s)) = b"
proof -
  assume ab: "sol_a s = a \<and> sol_b s = b"
  let ?P = "\<lambda>t. sol_a t = a \<and> sol_b t = b"
  have inner: "?P t \<Longrightarrow> ?P (fold (\<lambda>j s. s\<lparr>sol_temp := g j s\<rparr>) js t)" for g js t
    by (rule fold_invariant) simp_all
  have scale: "?P (solve_scale ar n i p s)" for p
    using inner[OF ab] by (simp add: solve_scale_def Let_def)
  have row: "?P t \<Longrightarrow> ?P (solve_row ar n i k f t)" for k f t
    using inner[of t] by (simp add: solve_row_def Let_def)
  have "?P t \<Longrightarrow> ?P (solve_eliminate ar n i t)" for t
    unfolding solve_eliminate_def by (rule fold_invariant) (simp_all add: row)
  with scale show ?thesis
    by (simp add: solve_step_def Let_def ab)
qed

text \<open>
  C9: \<open>inverse\<close>, \<open>determinant\<close> and \<open>solve\<close> do not modify the caller's matrix (nor, for
  \<open>solve\<close>, the right-hand side): after the call, whether it returns a result or throws,
  the arguments are what they were; every assignment of the elimination is to the locals
  \<open>temp\<close>, \<open>result\<close> and \<open>det\<close>. This holds in any arithmetic.
\<close>

theorem arguments_unchanged:
  "fst (inverse_exec ar a) = a
   \<and> fst (determinant_exec ar a) = a
   \<and> fst (solve_exec ar a b) = (a, b)"
proof -
  have 1: "fst (inverse_exec ar a) = a"
  proof (cases "a = [] \<or> length a \<noteq> length (a ! 0)")
    case True
    then show ?thesis by (auto simp: inverse_exec_def)
  next
    case False
    have "inv_a (inverse_init ar a) = a"
      unfolding inverse_init_def Let_def by (rule fold_invariant) simp_all
    then have "inv_a (fst (fold_exit (inverse_step ar (length a)) [0..<length a]
                 (inverse_init ar a))) = a"
      by (intro fold_exit_invariant[where P = "\<lambda>s. inv_a s = a"] inverse_step_a)
    with False show ?thesis
      by (auto simp: inverse_exec_def split: prod.splits option.splits)
  qed
  have 2: "fst (determinant_exec ar a) = a"
  proof (cases "a = [] \<or> length a \<noteq> length (a ! 0)")
    case True
    then show ?thesis by (auto simp: determinant_exec_def)
  next
    case False
    have "det_a (fst (fold_exit (determinant_step ar (length a)) [0..<length a]
             (determinant_init ar a))) = a"
      by (intro fold_exit_invariant[where P = "\<lambda>s. det_a s = a"] determinant_step_a)
        (simp_all add: determinant_init_def)
    with False show ?thesis
      by (auto simp: determinant_exec_def split: prod.splits option.splits)
  qed
  have 3: "fst (solve_exec ar a b) = (a, b)"
  proof (cases "a = [] \<or> length a \<noteq> length (a ! 0) \<or> length a \<noteq> length b")
    case True
    then show ?thesis by (auto simp: solve_exec_def)
  next
    case False
    let ?s = "fst (fold_exit (solve_step ar (length a)) [0..<length a] (solve_init a b))"
    have "sol_a ?s = a \<and> sol_b ?s = b"
      by (intro fold_exit_invariant[where P = "\<lambda>s. sol_a s = a \<and> sol_b s = b"] solve_step_ab)
        (simp_all add: solve_init_def)
    with False show ?thesis
      by (auto simp: solve_exec_def split: prod.splits option.splits)
  qed
  from 1 2 3 show ?thesis by blast
qed

theorem arguments_unchanged_witness:
  "fst (inverse_exec exact [[1, 2], [3, 4]]) = [[1, 2], [3, 4]]
   \<and> fst (determinant_exec exact [[1, 2], [3, 4]]) = [[1, 2], [3, 4]]
   \<and> fst (solve_exec exact [[1, 2], [3, 4]] [5, 6]) = ([[1, 2], [3, 4]], [5, 6])"
  by (rule arguments_unchanged)

section \<open>Construction of a Matrix\<close>

text \<open>
  The constructor of \<^verbatim>\<open>matrix_ops.cpp\<close> accepts the rows \<open>[[1,2],[3]]\<close>: the object has
  \<open>rows = 2\<close>, \<open>cols = 2\<close> and a second row of one element.
\<close>

theorem jagged_accepted:
  "Matrix_from [[Finite 1, Finite 2], [Finite 3]]
     = Inr \<lparr>data = [[Finite 1, Finite 2], [Finite 3]], rows = 2, cols = 2\<rparr>
   \<and> \<not> Matrix_invariant \<lparr>data = [[Finite 1, Finite 2], [Finite 3]], rows = 2, cols = 2\<rparr>"
  by (simp add: Matrix_from_def Matrix_invariant_def rectangular_def)

text \<open>
  C5, as the code has it: the constructor makes no check. From a non-empty list of rows
  it builds the object that holds these rows as they are, with \<open>rows\<close> their number and
  \<open>cols\<close> the length of the first; this object satisfies the invariant (at least one row
  and one column, every row of \<open>cols\<close> elements) exactly when the first row is not empty
  and every row has its length. Jagged input is accepted and gives an object that
  violates the invariant.
\<close>

theorem Matrix_from_invariant:
  assumes "input \<noteq> []"
  shows "\<exists>m. Matrix_from input = Inr m \<and> data m = input \<and> rows m = length input
           \<and> cols m = length (input ! 0)
           \<and> (Matrix_invariant m \<longleftrightarrow>
                input ! 0 \<noteq> [] \<and> (\<forall>row \<in> set input. length row = length (input ! 0)))"
  using assms
  by (auto simp: Matrix_from_def Matrix_invariant_def rectangular_def list_all_iff)

theorem Matrix_from_invariant_witness:
  "[[Finite 1, Finite 2], [Finite 3, Finite 4]] \<noteq> []
   \<and> (\<exists>m. Matrix_from [[Finite 1, Finite 2], [Finite 3, Finite 4]] = Inr m \<and> Matrix_invariant m)"
  using Matrix_from_invariant[of "[[Finite 1, Finite 2], [Finite 3, Finite 4]]"]
  by auto

section \<open>The dot product\<close>

lemma dot_product_zip:
  assumes "length a = length b"
  shows "fold (\<lambda>i r. fadd ar r (fmul ar (a ! i) (b ! i))) [0..<length a] z
       = fold (\<lambda>(x, y) r. fadd ar r (fmul ar x y)) (zip a b) z"
  using assms
proof (induction a arbitrary: b rule: rev_induct)
  case Nil
  then show ?case by simp
next
  case (snoc x xs)
  then obtain y ys where b: "b = ys @ [y]" and l: "length ys = length xs"
    by (cases b rule: rev_cases) auto
  have "fold (\<lambda>i r. fadd ar r (fmul ar ((xs @ [x]) ! i) ((ys @ [y]) ! i))) [0..<length xs] z
      = fold (\<lambda>i r. fadd ar r (fmul ar (xs ! i) (ys ! i))) [0..<length xs] z"
    by (rule fold_cong) (auto simp: nth_append l)
  then show ?case
    using snoc.IH[of ys] l by (simp add: b nth_append)
qed

text \<open>
  In \<^verbatim>\<open>matrix.cpp\<close>, \<open>dot_product\<close> of vectors of equal length is the scalar obtained by
  adding the products \<open>a[i] * b[i]\<close> to \<open>0.0\<close> from left to right, in exact arithmetic the
  sum of the products; vectors of unequal length are refused.
\<close>

lemma dot_product_scalar:
  assumes "length a = length b"
  shows "dot_product ar a b
       = Inr (fold (\<lambda>(x, y) r. fadd ar r (fmul ar x y)) (zip a b) (fzero ar))"
  using dot_product_zip[OF assms, of ar "fzero ar"] assms by (simp add: dot_product_def)

lemma dot_product_unequal:
  "length a \<noteq> length b \<Longrightarrow>
     dot_product ar a b = Inl (InvalidArgument ''Vectors must have the same length'')"
  by (simp add: dot_product_def)

lemma dot_product_exact:
  assumes "length a = length b"
  shows "dot_product exact a b = Inr (\<Sum>i<length a. a ! i * b ! i)"
proof -
  have "fold (\<lambda>i r. r + a ! i * b ! i) [0..<n] z = z + (\<Sum>i<n. a ! i * b ! i)" for n and z :: real
    by (induction n) (simp_all add: algebra_simps)
  from this[of "length a" 0] assms show ?thesis
    by (simp add: dot_product_def exact_sel)
qed

text \<open>
  C6 fails for \<open>dotProduct\<close> of \<^verbatim>\<open>matrix_ops.cpp\<close>: what it returns is not the scalar but
  a vector with the scalar as its one element. For \<open>[1,2,3]\<close> and \<open>[4,5,6]\<close> it returns \<open>[32]\<close>
  where \<open>dot_product\<close> of \<^verbatim>\<open>matrix.cpp\<close> returns \<open>32\<close>.
\<close>

theorem dotProduct_returns_vector:
  "dotProduct ieee [Finite 1, Finite 2, Finite 3] [Finite 4, Finite 5, Finite 6] = Inr [Finite 32]
   \<and> dot_product ieee [Finite 1, Finite 2, Finite 3] [Finite 4, Finite 5, Finite 6] = Inr (Finite 32)"
  by (simp add: dotProduct_def dot_product_def ieee_eval upt_rec numeral_3_eq_3)

lemma dotProduct_wraps:
  "dotProduct ar a b =
     (case dot_product ar a b of
        Inl e \<Rightarrow> Inl (InvalidArgument ''Vectors must have same size for dot product'')
      | Inr r \<Rightarrow> Inr [r])"
  by (simp add: dotProduct_def dot_product_def)

section \<open>Addition and subtraction\<close>

text \<open>
  In binary64 arithmetic \<open>2^-60 + 1\<close> rounds to \<open>1\<close>: for \<open>A = [[2^-60]]\<close> and \<open>B = [[1]]\<close>,
  \<open>add(A, B)\<close> is \<open>[[1]]\<close> and \<open>subtract(add(A, B), B)\<close> is \<open>[[0]]\<close>, which is not \<open>A\<close>.
\<close>

lemma round_one_plus_tiny: "round_double (1 + 1 / 2 ^ 60) = Finite 1"
  by code_simp

theorem add_subtract_rounds:
  "add ieee [[Finite (1 / 2 ^ 60)]] [[Finite 1]] = Inr [[Finite 1]]
   \<and> subtract ieee [[Finite 1]] [[Finite 1]] = Inr [[Finite 0]]
   \<and> [[Finite 0]] \<noteq> [[Finite (1 / 2 ^ 60)]]"
  using round_one_plus_tiny
  by (simp add: add_def subtract_def ieee_eval add.commute)

section \<open>The determinant test of Matrix::inverse\<close>

text \<open>
  The \<^verbatim>\<open>double\<close> nearest to \<open>1e-6\<close>, its square and its reciprocal as binary64 computes
  them.
\<close>

lemma round_1e6:
  "round_double (1 / 10 ^ 6) = Finite (4722366482869645 / 2 ^ 72)"
  "round_double (4722366482869645 / 2 ^ 72 * (4722366482869645 / 2 ^ 72))
     = Finite (4951760157141521 / 2 ^ 92)"
  "round_double (1 / (4722366482869645 / 2 ^ 72)) = Finite 1000000"
  by code_simp+

lemma round_1e12: "round_double (4951760157141521 / 2 ^ 92) = Finite (4951760157141521 / 2 ^ 92)"
  using round_double_representable[of 4951760157141521 "- 92"] by (simp add: pow2_def)

lemma round_1e6_again: "round_double (4722366482869645 / 2 ^ 72) = Finite (4722366482869645 / 2 ^ 72)"
  using round_double_representable[of 4722366482869645 "- 72"] by (simp add: pow2_def)

lemma Matrix_eval:
  "Matrix_set \<lparr>data = d, rows = r, cols = c\<rparr> i j v = \<lparr>data = set2 d i j v, rows = r, cols = c\<rparr>"
  by (simp add: Matrix_set_def)

text \<open>
  C10: \<open>Matrix::inverse\<close> of \<^verbatim>\<open>matrix_ops.cpp\<close> computes the cofactor determinant first
  and throws \<open>Matrix is singular (determinant = 0)\<close> whenever its magnitude is below
  \<open>1e-10\<close>, whatever the elimination would do. So for the diagonal matrix
  \<open>[[1e-6, 0], [0, 1e-6]]\<close>, whose determinant is about \<open>1e-12\<close> and whose pivots \<open>1e-6\<close>
  pass the pivot test, \<open>Matrix::inverse\<close> throws, although its own elimination, and
  \<open>inverse\<close> of \<^verbatim>\<open>matrix.cpp\<close>, compute the inverse \<open>[[1e6, 0], [0, 1e6]]\<close>.
\<close>

theorem inverse_determinant_test:
  "(rows m = cols m \<and> Matrix_determinant ar m = Inr d \<and> small ar d \<longrightarrow>
      Matrix_inverse ar m = Inl (InvalidArgument ''Matrix is singular (determinant = 0)''))
   \<and> (let e = round_double (1 / 10 ^ 6);
           D = \<lparr>data = [[e, Finite 0], [Finite 0, e]], rows = 2, cols = 2\<rparr>
       in Matrix_inverse ieee D = Inl (InvalidArgument ''Matrix is singular (determinant = 0)'')
          \<and> \<not> small ieee e
          \<and> Matrix_gauss_jordan ieee D
              = Inr \<lparr>data = [[Finite 1000000, Finite 0], [Finite 0, Finite 1000000]],
                     rows = 2, cols = 2\<rparr>
          \<and> inverse_mat ieee (data D)
              = Inr [[Finite 1000000, Finite 0], [Finite 0, Finite 1000000]])
   \<and> (let D = \<lparr>data = [[1 / 10 ^ 6, 0], [0, 1 / 10 ^ 6]], rows = 2, cols = 2\<rparr>
       in Matrix_inverse exact D = Inl (InvalidArgument ''Matrix is singular (determinant = 0)'')
          \<and> \<not> small exact (1 / 10 ^ 6)
          \<and> Matrix_gauss_jordan exact D
              = Inr \<lparr>data = [[1000000, 0], [0, 1000000]], rows = 2, cols = 2\<rparr>
          \<and> inverse_mat exact (data D) = Inr [[1000000, 0], [0, 1000000]])"
proof -
  let ?c = "4722366482869645 / 2 ^ 72 :: rat"
  let ?D = "\<lparr>data = [[Finite ?c, Finite 0], [Finite 0, Finite ?c]], rows = 2, cols = 2\<rparr>"
  have det: "Matrix_determinant ieee ?D = Inr (Finite (4951760157141521 / 2 ^ 92))"
    using round_1e6(2) round_1e12 by (simp add: Matrix_determinant.simps ieee_eval)
  have gj: "Matrix_gauss_jordan ieee ?D
     = Inr \<lparr>data = [[Finite 1000000, Finite 0], [Finite 0, Finite 1000000]], rows = 2, cols = 2\<rparr>"
    using round_1e6(3) round_1e6_again
    by (simp add: Matrix_gauss_jordan_def Matrix_augment_def Matrix_inverse_step_def
        Matrix_zero_def Matrix_eval ieee_eval upt_conv_Cons numeral_2_eq_2)
  have inv: "Matrix_inverse ieee ?D = Inl (InvalidArgument ''Matrix is singular (determinant = 0)'')"
    using det by (simp add: Matrix_inverse_def small_ieee)
  have sm: "\<not> small ieee (Finite ?c)"
    by (simp add: small_ieee)
  have im: "inverse_mat ieee (data ?D) = Inr [[Finite 1000000, Finite 0], [Finite 0, Finite 1000000]]"
    using round_1e6(3) round_1e6_again by (simp add: inverse_defs ieee_eval)
  let ?E = "\<lparr>data = [[1 / 10 ^ 6, 0], [0, 1 / 10 ^ 6 :: real]], rows = 2, cols = 2\<rparr>"
  have det': "Matrix_determinant exact ?E = Inr (1 / 10 ^ 12)"
    by (simp add: Matrix_determinant.simps exact_eval)
  have gj': "Matrix_gauss_jordan exact ?E
     = Inr \<lparr>data = [[1000000, 0], [0, 1000000]], rows = 2, cols = 2\<rparr>"
    by (simp add: Matrix_gauss_jordan_def Matrix_augment_def Matrix_inverse_step_def
        Matrix_zero_def Matrix_eval exact_eval upt_conv_Cons numeral_2_eq_2)
  have inv': "Matrix_inverse exact ?E = Inl (InvalidArgument ''Matrix is singular (determinant = 0)'')"
    using det' by (simp add: Matrix_inverse_def small_exact)
  have sm': "\<not> small exact (1 / 10 ^ 6)"
    by (simp add: small_exact)
  have im': "inverse_mat exact (data ?E) = Inr [[1000000, 0], [0, 1000000]]"
    by (simp add: inverse_defs exact_eval)
  have gen: "rows m = cols m \<and> Matrix_determinant ar m = Inr d \<and> small ar d \<longrightarrow>
      Matrix_inverse ar m = Inl (InvalidArgument ''Matrix is singular (determinant = 0)'')"
    by (simp add: Matrix_inverse_def)
  show ?thesis
    unfolding Let_def round_1e6(1)
    using gen det gj inv sm im gj' inv' sm' im' by blast
qed

theorem inverse_determinant_test_witness:
  "rows \<lparr>data = [[1 / 10 ^ 6, 0], [0, 1 / 10 ^ 6 :: real]], rows = 2, cols = 2\<rparr> = 2
   \<and> Matrix_determinant exact \<lparr>data = [[1 / 10 ^ 6, 0], [0, 1 / 10 ^ 6]], rows = 2, cols = 2\<rparr>
       = Inr (1 / 10 ^ 12)
   \<and> small exact (1 / 10 ^ 12)
   \<and> Matrix_inverse exact \<lparr>data = [[1 / 10 ^ 6, 0], [0, 1 / 10 ^ 6]], rows = 2, cols = 2\<rparr>
       = Inl (InvalidArgument ''Matrix is singular (determinant = 0)'')"
proof -
  let ?E = "\<lparr>data = [[1 / 10 ^ 6, 0], [0, 1 / 10 ^ 6 :: real]], rows = 2, cols = 2\<rparr>"
  have 1: "rows ?E = cols ?E" and 0: "rows ?E = 2" by simp_all
  have 2: "Matrix_determinant exact ?E = Inr (1 / 10 ^ 12)"
    by (simp add: Matrix_determinant.simps exact_eval)
  have 3: "small exact (1 / 10 ^ 12)"
    by (simp add: small_exact)
  from inverse_determinant_test[of ?E exact "1 / 10 ^ 12"] 0 1 2 3 show ?thesis
    by blast
qed

lemma mk_cong:
  assumes "\<And>i j. i < r \<Longrightarrow> j < c \<Longrightarrow> f i j = g i j"
  shows "mk r c f = mk r c g"
  using assms by (simp add: mk_def)

lemma mk_self: "rectangular m r c \<Longrightarrow> mk r c (\<lambda>i j. m ! i ! j) = m"
  by (rule matrix_eqI[symmetric]) (simp_all add: rectangular_length rectangular_nth)

section \<open>Addition followed by subtraction\<close>

text \<open>
  C8, as the code has it: for matrices \<open>A\<close> and \<open>B\<close> of the same shape,
  \<open>subtract(add(A, B), B)\<close> returns the matrix of that shape whose entry at \<open>(i, j)\<close> is
  \<open>(A[i][j] + B[i][j]) - B[i][j]\<close> as the arithmetic computes it. It is \<open>A\<close> itself in an
  arithmetic where \<open>(x + y) - y = x\<close>, as in exact arithmetic; in binary64 arithmetic the sum
  is rounded and \<open>A\<close> is recovered up to that rounding only.
\<close>

theorem add_then_subtract:
  assumes "rectangular a r c" and "rectangular b r c"
  shows "\<exists>s. add ar a b = Inr s
           \<and> subtract ar s b
               = Inr (mk r c (\<lambda>i j. fsub ar (fadd ar (a ! i ! j) (b ! i ! j)) (b ! i ! j)))
           \<and> ((\<forall>x y. fsub ar (fadd ar x y) y = x) \<longrightarrow> subtract ar s b = Inr a)"
proof -
  let ?s = "mk r c (\<lambda>i j. fadd ar (a ! i ! j) (b ! i ! j))"
  have r: "0 < r" "0 < c" using assms(1) by (simp_all add: rectangular_def)
  have s: "add ar a b = Inr ?s" by (rule add_entries[OF assms])
  have "subtract ar ?s b = Inr (mk r c (\<lambda>i j. fsub ar (?s ! i ! j) (b ! i ! j)))"
    by (rule subtract_entries[OF rectangular_mk[OF r] assms(2)])
  also have "mk r c (\<lambda>i j. fsub ar (?s ! i ! j) (b ! i ! j))
      = mk r c (\<lambda>i j. fsub ar (fadd ar (a ! i ! j) (b ! i ! j)) (b ! i ! j))"
    by (rule mk_cong) simp
  finally have t: "subtract ar ?s b
      = Inr (mk r c (\<lambda>i j. fsub ar (fadd ar (a ! i ! j) (b ! i ! j)) (b ! i ! j)))" .
  have "subtract ar ?s b = Inr a" if "\<forall>x y. fsub ar (fadd ar x y) y = x"
    using t that mk_self[OF assms(1)] by simp
  with s t show ?thesis by blast
qed

theorem add_then_subtract_witness:
  "rectangular [[1, 2], [3, 4 :: real]] 2 2 \<and> rectangular [[5, 6], [7, 8 :: real]] 2 2
   \<and> (\<forall>x y. fsub exact (fadd exact x y) y = x)
   \<and> (\<exists>s. add exact [[1, 2], [3, 4]] [[5, 6], [7, 8]] = Inr s
          \<and> subtract exact s [[5, 6], [7, 8]] = Inr [[1, 2], [3, 4]])"
proof -
  have 1: "rectangular [[1, 2], [3, 4 :: real]] 2 2" "rectangular [[5, 6], [7, 8 :: real]] 2 2"
    by (simp_all add: rectangular_def)
  have 2: "\<forall>x y. fsub exact (fadd exact x y) y = x"
    by (simp add: exact_def)
  from add_then_subtract[OF 1, of exact] 1 2 show ?thesis by blast
qed

section \<open>Transposition of a product\<close>

lemma ieee_mul_commute: "ieee_mul x y = ieee_mul y x"
  by (cases x; cases y) (simp_all add: mult.commute)

text \<open>
  C7: for matrices \<open>A\<close> (\<open>r \<times> c\<close>) and \<open>B\<close> (\<open>c \<times> d\<close>), \<open>transpose(multiply(A, B))\<close> and
  \<open>multiply(transpose(B), transpose(A))\<close> both return, and return the same matrix, in any
  arithmetic whose multiplication is commutative (exact and binary64 arithmetic are):
  both sides add the same products in the same order.
\<close>

theorem transpose_multiply:
  assumes "rectangular a r c" and "rectangular b c d"
    and comm: "\<forall>x y. fmul ar x y = fmul ar y x"
  shows "\<exists>ab bt ta t. matrix_multiply ar a b = Inr ab \<and> transpose_mat ar b = Inr bt
           \<and> transpose_mat ar a = Inr ta
           \<and> transpose_mat ar ab = Inr t \<and> matrix_multiply ar bt ta = Inr t"
proof -
  have r: "0 < r" "0 < c" "0 < d" using assms(1,2) by (simp_all add: rectangular_def)
  let ?ab = "mk r d (row_col ar a b c)"
  let ?bt = "mk d c (\<lambda>j k. b ! k ! j)"
  let ?ta = "mk c r (\<lambda>k i. a ! i ! k)"
  let ?t = "mk d r (\<lambda>j i. row_col ar a b c i j)"
  have 1: "matrix_multiply ar a b = Inr ?ab" by (rule multiply_entries[OF assms(1,2)])
  have 2: "transpose_mat ar b = Inr ?bt" by (rule transpose_entries[OF assms(2)])
  have 3: "transpose_mat ar a = Inr ?ta" by (rule transpose_entries[OF assms(1)])
  have "transpose_mat ar ?ab = Inr (mk d r (\<lambda>j i. ?ab ! i ! j))"
    by (rule transpose_entries[OF rectangular_mk[OF r(1,3)]])
  also have "mk d r (\<lambda>j i. ?ab ! i ! j) = ?t"
    by (rule mk_cong) simp
  finally have 4: "transpose_mat ar ?ab = Inr ?t" .
  have "matrix_multiply ar ?bt ?ta = Inr (mk d r (row_col ar ?bt ?ta c))"
    by (rule multiply_entries[OF rectangular_mk[OF r(3,2)] rectangular_mk[OF r(2,1)]])
  also have "mk d r (row_col ar ?bt ?ta c) = ?t"
  proof (rule mk_cong)
    fix j i assume ji: "j < d" "i < r"
    have "fold (\<lambda>k acc. fadd ar acc (fmul ar (?bt ! j ! k) (?ta ! k ! i))) [0..<c] (fzero ar)
        = fold (\<lambda>k acc. fadd ar acc (fmul ar (a ! i ! k) (b ! k ! j))) [0..<c] (fzero ar)"
      using ji comm by (intro fold_cong) auto
    then show "row_col ar ?bt ?ta c j i = row_col ar a b c i j"
      by (simp add: row_col_def)
  qed
  finally have 5: "matrix_multiply ar ?bt ?ta = Inr ?t" .
  from 1 2 3 4 5 show ?thesis by blast
qed

theorem transpose_multiply_witness:
  "rectangular [[Finite 1, Finite 2, Finite 3], [Finite 4, Finite 5, Finite 6]] 2 3
   \<and> rectangular [[Finite 1, Finite 2], [Finite 3, Finite 4], [Finite 5, Finite 6]] 3 2
   \<and> (\<forall>x y. fmul ieee x y = fmul ieee y x)
   \<and> (\<exists>ab bt ta t.
        matrix_multiply ieee [[Finite 1, Finite 2, Finite 3], [Finite 4, Finite 5, Finite 6]]
            [[Finite 1, Finite 2], [Finite 3, Finite 4], [Finite 5, Finite 6]] = Inr ab
        \<and> transpose_mat ieee [[Finite 1, Finite 2], [Finite 3, Finite 4], [Finite 5, Finite 6]] = Inr bt
        \<and> transpose_mat ieee [[Finite 1, Finite 2, Finite 3], [Finite 4, Finite 5, Finite 6]] = Inr ta
        \<and> transpose_mat ieee ab = Inr t \<and> matrix_multiply ieee bt ta = Inr t)"
proof -
  have 1: "rectangular [[Finite 1, Finite 2, Finite 3], [Finite 4, Finite 5, Finite 6]] 2 3"
    and 2: "rectangular [[Finite 1, Finite 2], [Finite 3, Finite 4], [Finite 5, Finite 6]] 3 2"
    by (simp_all add: rectangular_def)
  have 3: "\<forall>x y. fmul ieee x y = fmul ieee y x"
    using ieee_mul_commute by (simp add: ieee_def)
  from transpose_multiply[OF 1 2 3] 1 2 3 show ?thesis by blast
qed

section \<open>Small pivots\<close>

text \<open>
  A loop that reaches the iteration \<open>i\<close> and leaves there leaves with the value of that
  iteration.
\<close>

lemma fold_exit_leaves:
  assumes "i < n" and "fold_exit f [0..<i] s = (s', None)" and "f i s' = (s'', Some x)"
  shows "fold_exit f [0..<n] s = (s'', Some x)"
proof -
  have "[0..<n] = [0..<i] @ i # [Suc i..<n]"
    using assms(1) by (metis less_imp_le_nat upt_add_eq_append upt_conv_Cons le0 le_add_diff_inverse plus_nat.add_0)
  then show ?thesis
    using assms(2,3) by (simp add: fold_exit_append)
qed

lemma determinant_small:
  assumes "a \<noteq> []" "length a = length (a ! 0)" and "determinant_meets_small ar a"
  shows "determinant ar a = Inr (fzero ar)"
proof -
  from assms(3) obtain i where i: "i < length a"
    and c: "case fold_exit (determinant_step ar (length a)) [0..<i] (determinant_init ar a) of
              (s, None) \<Rightarrow> small ar (det_temp s ! i ! i) | (s, Some v) \<Rightarrow> False"
    by (auto simp: determinant_meets_small_def list_ex_iff)
  obtain s x where e: "fold_exit (determinant_step ar (length a)) [0..<i] (determinant_init ar a) = (s, x)"
    by (cases "fold_exit (determinant_step ar (length a)) [0..<i] (determinant_init ar a)")
  from c e have s: "fold_exit (determinant_step ar (length a)) [0..<i] (determinant_init ar a) = (s, None)"
    and p: "small ar (det_temp s ! i ! i)"
    by (cases x; simp)+
  have "determinant_step ar (length a) i s = (s, Some (fzero ar))"
    using p by (simp add: determinant_step_def)
  from fold_exit_leaves[OF i s this] assms(1,2) show ?thesis
    by (simp add: determinant_def determinant_exec_def)
qed

lemma determinant_returns:
  assumes "a \<noteq> []" "length a = length (a ! 0)"
  shows "\<exists>v. determinant ar a = Inr v"
  using assms by (simp add: determinant_def determinant_exec_def split: prod.splits option.splits)

lemma inverse_small:
  assumes "a \<noteq> []" "length a = length (a ! 0)" and "inverse_meets_small ar a"
  shows "inverse_mat ar a = Inl (RuntimeError ''Matrix is singular'')"
proof -
  from assms(3) obtain i where i: "i < length a"
    and c: "case fold_exit (inverse_step ar (length a)) [0..<i] (inverse_init ar a) of
              (s, None) \<Rightarrow> small ar (inv_temp s ! i ! i) | (s, Some v) \<Rightarrow> False"
    by (auto simp: inverse_meets_small_def list_ex_iff)
  obtain s x where e: "fold_exit (inverse_step ar (length a)) [0..<i] (inverse_init ar a) = (s, x)"
    by (cases "fold_exit (inverse_step ar (length a)) [0..<i] (inverse_init ar a)")
  from c e have s: "fold_exit (inverse_step ar (length a)) [0..<i] (inverse_init ar a) = (s, None)"
    and p: "small ar (inv_temp s ! i ! i)"
    by (cases x; simp)+
  have "inverse_step ar (length a) i s = (s, Some (RuntimeError ''Matrix is singular''))"
    using p by (simp add: inverse_step_def)
  from fold_exit_leaves[OF i s this] assms(1,2) show ?thesis
    by (simp add: inverse_mat_def inverse_exec_def)
qed

lemma solve_small:
  assumes "a \<noteq> []" "length a = length (a ! 0)" "length a = length b"
    and "solve_meets_small ar a b"
  shows "solve ar a b = Inl (RuntimeError ''Matrix is singular'')"
proof -
  from assms(4) obtain i where i: "i < length a"
    and c: "case fold_exit (solve_step ar (length a)) [0..<i] (solve_init a b) of
              (s, None) \<Rightarrow> small ar (sol_temp s ! i ! i) | (s, Some v) \<Rightarrow> False"
    by (auto simp: solve_meets_small_def list_ex_iff)
  obtain s x where e: "fold_exit (solve_step ar (length a)) [0..<i] (solve_init a b) = (s, x)"
    by (cases "fold_exit (solve_step ar (length a)) [0..<i] (solve_init a b)")
  from c e have s: "fold_exit (solve_step ar (length a)) [0..<i] (solve_init a b) = (s, None)"
    and p: "small ar (sol_temp s ! i ! i)"
    by (cases x; simp)+
  have "solve_step ar (length a) i s = (s, Some (RuntimeError ''Matrix is singular''))"
    using p by (simp add: solve_step_def)
  from fold_exit_leaves[OF i s this] assms(1,2,3) show ?thesis
    by (simp add: solve_def solve_exec_def)
qed

text \<open>
  A loop none of whose iterations leaves the function runs to its end.
\<close>

lemma fold_exit_stays:
  assumes "\<And>i s. i < n \<Longrightarrow> fold_exit f [0..<i] s0 = (s, None) \<Longrightarrow> \<exists>s'. f i s = (s', None)"
  shows "\<exists>s. fold_exit f [0..<n] s0 = (s, None)"
  using assms
proof (induction n)
  case 0
  show ?case by simp
next
  case (Suc n)
  from Suc.IH Suc.prems obtain s where s: "fold_exit f [0..<n] s0 = (s, None)"
    by (meson less_Suc_eq)
  from Suc.prems[OF _ s] obtain s' where "f n s = (s', None)" by auto
  with s show ?case by (simp add: fold_exit_append)
qed

lemma inverse_returns:
  assumes "a \<noteq> []" "length a = length (a ! 0)" and "\<not> inverse_meets_small ar a"
  shows "\<exists>r. inverse_mat ar a = Inr r"
proof -
  have "\<exists>s'. inverse_step ar (length a) i s = (s', None)"
    if "i < length a" "fold_exit (inverse_step ar (length a)) [0..<i] (inverse_init ar a) = (s, None)"
    for i s
  proof -
    have "\<not> small ar (inv_temp s ! i ! i)"
    proof
      assume sm: "small ar (inv_temp s ! i ! i)"
      have "inverse_meets_small ar a"
        unfolding inverse_meets_small_def list_ex_iff
        by (rule bexI[of _ i]) (simp_all add: that sm)
      with assms(3) show False ..
    qed
    then show ?thesis by (simp add: inverse_step_def)
  qed
  from fold_exit_stays[of "length a" "inverse_step ar (length a)" "inverse_init ar a", OF this]
  obtain s where "fold_exit (inverse_step ar (length a)) [0..<length a] (inverse_init ar a) = (s, None)"
    by blast
  then show ?thesis
    using assms(1,2) by (simp add: inverse_mat_def inverse_exec_def)
qed

lemma solve_returns:
  assumes "a \<noteq> []" "length a = length (a ! 0)" "length a = length b"
    and "\<not> solve_meets_small ar a b"
  shows "\<exists>x. solve ar a b = Inr x"
proof -
  have "\<exists>s'. solve_step ar (length a) i s = (s', None)"
    if "i < length a" "fold_exit (solve_step ar (length a)) [0..<i] (solve_init a b) = (s, None)"
    for i s
  proof -
    have "\<not> small ar (sol_temp s ! i ! i)"
    proof
      assume sm: "small ar (sol_temp s ! i ! i)"
      have "solve_meets_small ar a b"
        unfolding solve_meets_small_def list_ex_iff
        by (rule bexI[of _ i]) (simp_all add: that sm)
      with assms(4) show False ..
    qed
    then show ?thesis by (simp add: solve_step_def)
  qed
  from fold_exit_stays[of "length a" "solve_step ar (length a)" "solve_init a b", OF this]
  obtain s where "fold_exit (solve_step ar (length a)) [0..<length a] (solve_init a b) = (s, None)"
    by blast
  then show ?thesis
    using assms(1,2,3) by (simp add: solve_def solve_exec_def)
qed

subsection \<open>The three eliminations in binary64\<close>

text \<open>
  \<open>determinant\<close> computes \<^verbatim>\<open>temp[k][j] - (temp[k][i] / pivot) * temp[i][j]\<close>, while \<open>inverse\<close>
  and \<open>solve\<close> divide the pivot row first and compute
  \<^verbatim>\<open>temp[k][j] - temp[k][i] * (temp[i][j] / pivot)\<close>. In binary64 the two round differently:
  \<open>5 / 3\<close> rounds up, and \<open>5\<close> times the rounded \<open>1 / 3\<close> rounds down to the value below it.
\<close>

lemma round_thirds:
  "round_double (5 / 3) = Finite (7505999378950827 / 2 ^ 52)"
  "round_double (1 / 3) = Finite (6004799503160661 / 2 ^ 54)"
  "round_double (7505999378950827 / 2 ^ 52 * 3) = Finite 5"
  "round_double (5 * (6004799503160661 / 2 ^ 54)) = Finite (3752999689475413 / 2 ^ 51)"
  by code_simp+

lemma round_boundary:
  "round_double (7505999378950827 / 2 ^ 52) = Finite (7505999378950827 / 2 ^ 52)"
  "round_double (450359 / 2 ^ 52) = Finite (450359 / 2 ^ 52)"
  "round_double (56295 / 2 ^ 49) = Finite (56295 / 2 ^ 49)"
  using round_double_representable[of 7505999378950827 "- 52"]
    round_double_representable[of 450359 "- 52"]
    round_double_representable[of 56295 "- 49"]
  by (simp_all add: pow2_def)

text \<open>
  The matrix \<open>[[3, 1], [5, d]]\<close> with \<open>d = 3752999689700593 / 2 ^ 51\<close>, the \<^verbatim>\<open>double\<close>
  \<^verbatim>\<open>0x1.aaaaaaab189e2p+0\<close> (about \<open>1.6666666667666665\<close>). In its second row
  \<open>determinant\<close> reads the pivot \<open>450359 / 2 ^ 52\<close>, about \<open>9.99998e-11\<close>, which is below
  \<open>1e-10\<close>: it returns \<open>0.0\<close>. \<open>inverse\<close> and \<open>solve\<close> read the pivot \<open>56295 / 2 ^ 49\<close>,
  about \<open>1.00000008e-10\<close>, which is not: they throw nothing and return a result.
\<close>

theorem pivots_round_differently:
  "determinant_meets_small ieee
       [[Finite 3, Finite 1], [Finite 5, Finite (3752999689700593 / 2 ^ 51)]]
   \<and> det_temp (fst (fold_exit (determinant_step ieee 2) [0..<1]
         (determinant_init ieee
            [[Finite 3, Finite 1], [Finite 5, Finite (3752999689700593 / 2 ^ 51)]]))) ! 1 ! 1
       = Finite (450359 / 2 ^ 52)
   \<and> determinant ieee [[Finite 3, Finite 1], [Finite 5, Finite (3752999689700593 / 2 ^ 51)]]
       = Inr (Finite 0)
   \<and> inv_temp (fst (fold_exit (inverse_step ieee 2) [0..<1]
         (inverse_init ieee
            [[Finite 3, Finite 1], [Finite 5, Finite (3752999689700593 / 2 ^ 51)]]))) ! 1 ! 1
       = Finite (56295 / 2 ^ 49)
   \<and> small ieee (Finite (450359 / 2 ^ 52))
   \<and> \<not> small ieee (Finite (56295 / 2 ^ 49))
   \<and> (\<exists>r. inverse_mat ieee
              [[Finite 3, Finite 1], [Finite 5, Finite (3752999689700593 / 2 ^ 51)]] = Inr r)
   \<and> (\<exists>x. solve ieee [[Finite 3, Finite 1], [Finite 5, Finite (3752999689700593 / 2 ^ 51)]]
              [Finite 1, Finite 1] = Inr x)"
proof -
  let ?a = "[[Finite 3, Finite 1], [Finite 5, Finite (3752999689700593 / 2 ^ 51)]]"
  let ?b = "[Finite 1, Finite 1]"
  have sq: "?a \<noteq> []" "length ?a = length (?a ! 0)" "length ?a = length ?b"
    by simp_all
  have 1: "determinant_meets_small ieee ?a"
    using round_thirds round_boundary
    by (simp add: determinant_meets_small_def determinant_defs ieee_eval)
  have 2: "det_temp (fst (fold_exit (determinant_step ieee 2) [0..<1] (determinant_init ieee ?a))) ! 1 ! 1
       = Finite (450359 / 2 ^ 52)"
    using round_thirds round_boundary
    by (simp add: determinant_defs ieee_eval upt_conv_Cons numeral_2_eq_2)
  have 3: "determinant ieee ?a = Inr (Finite 0)"
    using determinant_small[OF sq(1,2) 1] by (simp add: ieee_sel)
  have 4: "inv_temp (fst (fold_exit (inverse_step ieee 2) [0..<1] (inverse_init ieee ?a))) ! 1 ! 1
       = Finite (56295 / 2 ^ 49)"
    using round_thirds round_boundary
    by (simp add: inverse_defs ieee_eval upt_conv_Cons numeral_2_eq_2)
  have 5: "small ieee (Finite (450359 / 2 ^ 52))" and 6: "\<not> small ieee (Finite (56295 / 2 ^ 49))"
    by (simp_all add: small_ieee)
  have 7: "\<not> inverse_meets_small ieee ?a"
    using round_thirds round_boundary
    by (simp add: inverse_meets_small_def inverse_defs ieee_eval)
  have 8: "\<not> solve_meets_small ieee ?a ?b"
    using round_thirds round_boundary
    by (simp add: solve_meets_small_def solve_defs ieee_eval)
  show ?thesis
    using 1 2 3 4 5 6 inverse_returns[OF sq(1,2) 7] solve_returns[OF sq 8] by blast
qed

text \<open>
  C1, as the code has it. For every square matrix, in any arithmetic: \<open>determinant\<close>
  returns a value and does not fail, and it returns \<open>0.0\<close> when its elimination meets a
  pivot of magnitude below \<open>1e-10\<close>; \<open>inverse\<close> and \<open>solve\<close> (with a right-hand side of the
  matrix's size) throw the error \<open>Matrix is singular\<close> exactly when their own elimination
  meets such a pivot. In exact arithmetic the three eliminations meet a small pivot on
  the same matrices, so there a small pivot of \<open>determinant\<close> means that \<open>determinant\<close>
  returns \<open>0.0\<close> and \<open>inverse\<close> and \<open>solve\<close> throw. The singular matrix \<open>[[1,2],[2,4]]\<close> is
  an instance in both arithmetics, each routine meeting the pivot \<open>4 - 2 * 2 = 0\<close> in the
  second row.
\<close>

theorem small_pivot_asymmetry:
  fixes ar :: "'a arith" and a :: "'a Matrix" and b :: "'a Vector"
    and e :: "real Matrix" and c :: "real Vector"
  assumes "rectangular a n n" and "length b = n" and "rectangular e m m" and "length c = m"
  shows "(\<exists>v. determinant ar a = Inr v)
    \<and> (determinant_meets_small ar a \<longrightarrow> determinant ar a = Inr (fzero ar))
    \<and> (inverse_meets_small ar a \<longrightarrow> inverse_mat ar a = Inl (RuntimeError ''Matrix is singular''))
    \<and> (\<not> inverse_meets_small ar a \<longrightarrow> (\<exists>r. inverse_mat ar a = Inr r))
    \<and> (solve_meets_small ar a b \<longrightarrow> solve ar a b = Inl (RuntimeError ''Matrix is singular''))
    \<and> (\<not> solve_meets_small ar a b \<longrightarrow> (\<exists>x. solve ar a b = Inr x))
    \<and> (determinant_meets_small exact e \<longrightarrow>
          determinant exact e = Inr 0
          \<and> inverse_mat exact e = Inl (RuntimeError ''Matrix is singular'')
          \<and> solve exact e c = Inl (RuntimeError ''Matrix is singular''))"
proof -
  have sq: "a \<noteq> []" "length a = length (a ! 0)" "length a = length b"
    using assms(1,2) rectangular_nonempty[OF assms(1)] by (simp_all add: rectangular_length)
  have sq': "e \<noteq> []" "length e = length (e ! 0)" "length e = length c"
    using assms(3,4) rectangular_nonempty[OF assms(3)] by (simp_all add: rectangular_length)
  have ex: "determinant exact e = Inr 0
          \<and> inverse_mat exact e = Inl (RuntimeError ''Matrix is singular'')
          \<and> solve exact e c = Inl (RuntimeError ''Matrix is singular'')"
    if d: "determinant_meets_small exact e"
  proof -
    have "inverse_meets_small exact e" "solve_meets_small exact e c"
      using d inverse_pivots_exact[OF assms(3)] solve_pivots_exact[OF assms(3), of c] by simp_all
    then show ?thesis
      using determinant_small[OF sq'(1,2) d] inverse_small[OF sq'(1,2)] solve_small[OF sq']
      by (simp add: exact_sel)
  qed
  show ?thesis
    using determinant_returns[OF sq(1,2)] determinant_small[OF sq(1,2)] inverse_small[OF sq(1,2)]
      inverse_returns[OF sq(1,2)] solve_small[OF sq] solve_returns[OF sq] ex by blast
qed

theorem small_pivot_asymmetry_witness:
  "rectangular [[Finite 1, Finite 2], [Finite 2, Finite 4]] 2 2
   \<and> length [Finite 5, Finite 6] = 2
   \<and> rectangular [[1, 2], [2, 4 :: real]] 2 2
   \<and> length [5, 6 :: real] = 2
   \<and> determinant_meets_small ieee [[Finite 1, Finite 2], [Finite 2, Finite 4]]
   \<and> inverse_meets_small ieee [[Finite 1, Finite 2], [Finite 2, Finite 4]]
   \<and> solve_meets_small ieee [[Finite 1, Finite 2], [Finite 2, Finite 4]] [Finite 5, Finite 6]
   \<and> determinant ieee [[Finite 1, Finite 2], [Finite 2, Finite 4]] = Inr (Finite 0)
   \<and> inverse_mat ieee [[Finite 1, Finite 2], [Finite 2, Finite 4]]
       = Inl (RuntimeError ''Matrix is singular'')
   \<and> solve ieee [[Finite 1, Finite 2], [Finite 2, Finite 4]] [Finite 5, Finite 6]
       = Inl (RuntimeError ''Matrix is singular'')
   \<and> determinant_meets_small exact [[1, 2], [2, 4]]
   \<and> determinant exact [[1, 2], [2, 4]] = Inr 0
   \<and> inverse_mat exact [[1, 2], [2, 4]] = Inl (RuntimeError ''Matrix is singular'')
   \<and> solve exact [[1, 2], [2, 4]] [5, 6] = Inl (RuntimeError ''Matrix is singular'')"
proof -
  let ?a = "[[Finite 1, Finite 2], [Finite 2, Finite 4]]"
  let ?e = "[[1, 2], [2, 4 :: real]]"
  have 1: "rectangular ?a 2 2" and 2: "length [Finite 5, Finite 6] = 2"
    and 7: "rectangular ?e 2 2" and 8: "length [5, 6 :: real] = 2"
    by (simp_all add: rectangular_def)
  have 3: "determinant_meets_small ieee ?a"
    by (simp add: determinant_meets_small_def determinant_defs ieee_eval)
  have 4: "inverse_meets_small ieee ?a"
    by (simp add: inverse_meets_small_def inverse_defs ieee_eval)
  have 5: "solve_meets_small ieee ?a [Finite 5, Finite 6]"
    by (simp add: solve_meets_small_def solve_defs ieee_eval)
  have 6: "determinant_meets_small exact ?e"
    by (simp add: determinant_meets_small_def determinant_defs exact_eval)
  from small_pivot_asymmetry[OF 1 2 7 8, of ieee] 1 2 7 8 3 4 5 6 show ?thesis
    by (simp add: ieee_sel)
qed

section \<open>The two determinants\<close>

lemma cols_getMinor: "cols (Matrix_getMinor ar m row col) = cols m - 1"
proof -
  let ?P = "\<lambda>(p :: 'a MatrixObj \<times> nat \<times> nat). cols (fst p) = cols m - 1"
  let ?Q = "\<lambda>(p :: 'a MatrixObj \<times> nat). cols (fst p) = cols m - 1"
  let ?inner = "\<lambda>i mi. fold (\<lambda>j (mn, mj).
                       if j = col then (mn, mj)
                       else (mn\<lparr>data := set2 (data mn) mi mj (data m ! i ! j)\<rparr>, mj + 1))
                     [0..<cols m]"
  let ?body = "\<lambda>i (minor, mi, mj).
            if i = row then (minor, mi, mj)
            else let (minor', mj') = ?inner i mi (minor, 0) in (minor', mi + 1, mj')"
  have "?P (fold ?body [0..<rows m] (Matrix_zero ar (rows m - 1) (cols m - 1), 0, 0))"
  proof (rule fold_invariant)
    show "?P (Matrix_zero ar (rows m - 1) (cols m - 1), 0, 0)"
      by (simp add: Matrix_zero_def)
  next
    fix i and s :: "'a MatrixObj \<times> nat \<times> nat"
    assume s: "?P s"
    obtain minor mi mj where [simp]: "s = (minor, mi, mj)" by (cases s) auto
    have "?Q (?inner i mi (minor, 0))"
      by (rule fold_invariant) (use s in \<open>auto split: prod.splits\<close>)
    then show "?P (?body i s)"
      using s by (auto split: prod.splits)
  qed
  then show ?thesis by (simp add: Matrix_getMinor_def)
qed

text \<open>
  On a square Matrix the cofactor expansion returns a value, in any arithmetic: the
  minors are square, so no recursive call throws.
\<close>

lemma Matrix_determinant_returns:
  assumes "rows m = cols m"
  shows "\<exists>v. Matrix_determinant ar m = Inr v"
  using assms
proof (induction "rows m" arbitrary: m rule: less_induct)
  case less
  consider "rows m = 0" | "rows m = 1" | "rows m = 2" | "3 \<le> rows m" by linarith
  then show ?case
  proof cases
    case 1
    then show ?thesis using less.prems by (subst Matrix_determinant.simps) simp
  next
    case 2
    then show ?thesis using less.prems by (subst Matrix_determinant.simps) simp
  next
    case 3
    then show ?thesis using less.prems by (subst Matrix_determinant.simps) simp
  next
    case 4
    let ?f = "\<lambda>j acc.
             case acc of
               Inl e \<Rightarrow> Inl e
             | Inr det \<Rightarrow>
                 (case Matrix_determinant ar (Matrix_getMinor ar m 0 j) of
                    Inl e \<Rightarrow> Inl e
                  | Inr d \<Rightarrow>
                      Inr (fadd ar det
                             (fmul ar (fmul ar (if even j then fone ar else fminus_one ar)
                                               (data m ! 0 ! j)) d)))"
    have eq: "Matrix_determinant ar m = fold ?f [0..<cols m] (Inr (fzero ar))"
      by (rule Matrix_determinant_large[OF less.prems 4])
    have "\<exists>v. fold ?f [0..<cols m] (Inr (fzero ar)) = Inr v"
    proof (rule fold_invariant[where P = "\<lambda>acc. \<exists>v. acc = Inr v"])
      fix j :: nat and acc :: "error + 'a"
      assume "\<exists>v. acc = Inr v"
      then obtain det where acc: "acc = Inr det" by blast
      have "rows (Matrix_getMinor ar m 0 j) < rows m"
        using 4 by (simp add: rows_getMinor)
      moreover have "rows (Matrix_getMinor ar m 0 j) = cols (Matrix_getMinor ar m 0 j)"
        using less.prems by (simp add: rows_getMinor cols_getMinor)
      ultimately obtain d where "Matrix_determinant ar (Matrix_getMinor ar m 0 j) = Inr d"
        using less.hyps by blast
      then show "\<exists>v. ?f j acc = Inr v"
        by (simp add: acc)
    qed simp
    then show ?thesis unfolding eq .
  qed
qed

lemma round_five_thirds:
  "round_double (5 / 3) = Finite (7505999378950827 / 2 ^ 52)"
  "round_double (7505999378950827 / 2 ^ 52 * 3) = Finite 5"
  by code_simp+

lemma round_third_below:
  "round_double (7505999378950827 / 2 ^ 52) = Finite (7505999378950827 / 2 ^ 52)"
  "round_double (1501199875790165 / 2 ^ 52) = Finite (1501199875790165 / 2 ^ 52)"
  "round_double (4503599627370495 / 2 ^ 52) = Finite (4503599627370495 / 2 ^ 52)"
  using round_double_representable[of 7505999378950827 "- 52"]
    round_double_representable[of 1501199875790165 "- 52"]
    round_double_representable[of 4503599627370495 "- 52"]
  by (simp_all add: pow2_def)

text \<open>
  Two matrices on which the two determinants differ. On \<open>[[0,1],[1,0]]\<close> the elimination
  of \<^verbatim>\<open>matrix.cpp\<close> reads the pivot \<open>0\<close> first and returns \<open>0.0\<close>, while the cofactor
  expansion of \<^verbatim>\<open>matrix_ops.cpp\<close> returns \<open>-1\<close>, in both arithmetics. On \<open>[[3,1],[5,2]]\<close>
  no pivot is small, and the two agree in exact arithmetic (both give \<open>1\<close>), but in
  binary64 the elimination rounds \<open>5 / 3\<close> up to \<open>7505999378950827 / 2 ^ 52\<close>, reads the
  second pivot \<open>2 - 5 / 3\<close> as \<open>1501199875790165 / 2 ^ 52\<close> and returns three times it,
  \<open>4503599627370495 / 2 ^ 52\<close> (about \<open>0.9999999999999998\<close>), while the cofactor
  expansion returns \<open>3 * 2 - 1 * 5 = 1\<close>.
\<close>

theorem determinants_differ:
  "determinant ieee [[Finite 0, Finite 1], [Finite 1, Finite 0]] = Inr (Finite 0)
   \<and> Matrix_determinant ieee \<lparr>data = [[Finite 0, Finite 1], [Finite 1, Finite 0]], rows = 2, cols = 2\<rparr>
       = Inr (Finite (- 1))
   \<and> determinant ieee [[Finite 0, Finite 1], [Finite 1, Finite 0]]
       \<noteq> Matrix_determinant ieee \<lparr>data = [[Finite 0, Finite 1], [Finite 1, Finite 0]], rows = 2, cols = 2\<rparr>
   \<and> determinant exact [[0, 1], [1, 0]] = Inr 0
   \<and> Matrix_determinant exact \<lparr>data = [[0, 1], [1, 0]], rows = 2, cols = 2\<rparr> = Inr (- 1)
   \<and> determinant exact [[0, 1], [1, 0]]
       \<noteq> Matrix_determinant exact \<lparr>data = [[0, 1], [1, 0]], rows = 2, cols = 2\<rparr>
   \<and> \<not> determinant_meets_small ieee [[Finite 3, Finite 1], [Finite 5, Finite 2]]
   \<and> Matrix_from [[Finite 3, Finite 1], [Finite 5, Finite 2]]
       = Inr \<lparr>data = [[Finite 3, Finite 1], [Finite 5, Finite 2]], rows = 2, cols = 2\<rparr>
   \<and> determinant ieee [[Finite 3, Finite 1], [Finite 5, Finite 2]]
       = Inr (Finite (4503599627370495 / 2 ^ 52))
   \<and> Matrix_determinant ieee \<lparr>data = [[Finite 3, Finite 1], [Finite 5, Finite 2]], rows = 2, cols = 2\<rparr>
       = Inr (Finite 1)
   \<and> determinant ieee [[Finite 3, Finite 1], [Finite 5, Finite 2]]
       \<noteq> Matrix_determinant ieee \<lparr>data = [[Finite 3, Finite 1], [Finite 5, Finite 2]], rows = 2, cols = 2\<rparr>
   \<and> determinant exact [[3, 1], [5, 2]] = Inr 1
   \<and> Matrix_determinant exact \<lparr>data = [[3, 1], [5, 2]], rows = 2, cols = 2\<rparr> = Inr 1"
proof -
  have 1: "determinant ieee [[Finite 0, Finite 1], [Finite 1, Finite 0]] = Inr (Finite 0)"
    by (simp add: determinant_defs ieee_eval)
  have 2: "determinant exact [[0, 1], [1, 0]] = Inr 0"
    by (simp add: determinant_defs exact_eval)
  have 3: "Matrix_determinant ieee \<lparr>data = [[Finite 0, Finite 1], [Finite 1, Finite 0]], rows = 2, cols = 2\<rparr>
       = Inr (Finite (- 1))"
    and 4: "Matrix_determinant exact \<lparr>data = [[0, 1], [1, 0]], rows = 2, cols = 2\<rparr> = Inr (- 1)"
    by (simp_all add: Matrix_determinant.simps ieee_eval exact_eval)
  have 5: "\<not> determinant_meets_small ieee [[Finite 3, Finite 1], [Finite 5, Finite 2]]"
    using round_five_thirds round_third_below
    by (simp add: determinant_meets_small_def determinant_defs ieee_eval)
  have 6: "Matrix_from [[Finite 3, Finite 1], [Finite 5, Finite 2]]
       = Inr \<lparr>data = [[Finite 3, Finite 1], [Finite 5, Finite 2]], rows = 2, cols = 2\<rparr>"
    by (simp add: Matrix_from_def)
  have 7: "determinant ieee [[Finite 3, Finite 1], [Finite 5, Finite 2]]
       = Inr (Finite (4503599627370495 / 2 ^ 52))"
    using round_five_thirds round_third_below
    by (simp add: determinant_defs ieee_eval)
  have 8: "Matrix_determinant ieee \<lparr>data = [[Finite 3, Finite 1], [Finite 5, Finite 2]], rows = 2, cols = 2\<rparr>
       = Inr (Finite 1)"
    by (simp add: Matrix_determinant.simps ieee_eval)
  have 9: "determinant exact [[3, 1], [5, 2]] = Inr 1"
    by (simp add: determinant_defs exact_eval)
  have 10: "Matrix_determinant exact \<lparr>data = [[3, 1], [5, 2]], rows = 2, cols = 2\<rparr> = Inr 1"
    by (simp add: Matrix_determinant.simps exact_eval)
  show ?thesis unfolding 1 2 3 4 7 8 9 10 using 5 6 by simp
qed

text \<open>
  C2, as the code has it. In any arithmetic, on every square matrix the elimination of
  \<open>determinant\<close> (\<^verbatim>\<open>matrix.cpp\<close>) and the cofactor expansion of \<open>Matrix::determinant\<close>
  (\<^verbatim>\<open>matrix_ops.cpp\<close>) on the Matrix built from the same rows both return a value, and
  the elimination returns \<open>0.0\<close> where it meets a pivot of magnitude below \<open>1e-10\<close>,
  whatever the cofactor expansion gives. In exact arithmetic, for every square matrix on
  which the elimination meets no such pivot, the two return the same value. In binary64
  they need not, the two routines rounding differently.
\<close>

theorem determinants_agree_exact:
  fixes ar :: "'a arith" and a :: "'a Matrix" and e :: "real Matrix"
  assumes "rectangular a n n" and "rectangular e k k"
  shows "(\<exists>m v w. Matrix_from a = Inr m \<and> determinant ar a = Inr v
            \<and> Matrix_determinant ar m = Inr w)
    \<and> (determinant_meets_small ar a \<longrightarrow> determinant ar a = Inr (fzero ar))
    \<and> (\<not> determinant_meets_small exact e \<longrightarrow>
         (\<exists>m. Matrix_from e = Inr m \<and> determinant exact e = Matrix_determinant exact m))"
proof -
  have sq: "a \<noteq> []" "length a = length (a ! 0)"
    using assms(1) rectangular_nonempty[OF assms(1)] by (simp_all add: rectangular_length)
  have len_a: "length a = n"
    using assms(1) by (simp add: rectangular_def)
  have "Matrix_from a = Inr \<lparr>data = a, rows = n, cols = n\<rparr>"
    using sq len_a by (simp add: Matrix_from_def)
  moreover obtain v where "determinant ar a = Inr v"
    using determinant_returns[OF sq] by blast
  moreover obtain w where "Matrix_determinant ar \<lparr>data = a, rows = n, cols = n\<rparr> = Inr w"
    using Matrix_determinant_returns[of "\<lparr>data = a, rows = n, cols = n\<rparr>" ar] by auto
  ultimately have both: "\<exists>m v w. Matrix_from a = Inr m \<and> determinant ar a = Inr v
            \<and> Matrix_determinant ar m = Inr w"
    by blast
  have zero: "determinant_meets_small ar a \<longrightarrow> determinant ar a = Inr (fzero ar)"
    using determinant_small[OF sq] by blast
  have agree: "\<exists>m. Matrix_from e = Inr m \<and> determinant exact e = Matrix_determinant exact m"
    if ns: "\<not> determinant_meets_small exact e"
  proof -
    let ?m = "\<lparr>data = e, rows = k, cols = k\<rparr>"
    have len: "length e = k" "\<And>i. i < k \<Longrightarrow> length (e ! i) = k" "0 < k"
      using assms(2) rectangular_nth[OF assms(2)] by (simp_all add: rectangular_def)
    have "Matrix_from e = Inr ?m"
      using rectangular_nonempty[OF assms(2)] len(1) by (simp add: Matrix_from_def)
    moreover have "Matrix_determinant exact ?m = Inr (ldet e)"
      using Matrix_determinant_exact_ldet[of ?m k] len by simp
    moreover have "determinant exact e = Inr (ldet e)"
      by (rule determinant_exact_ldet[OF assms(2) ns])
    ultimately show ?thesis by simp
  qed
  show ?thesis using both zero agree by blast
qed

theorem determinants_agree_exact_witness:
  "rectangular [[Finite 1, Finite 2], [Finite 2, Finite 4]] 2 2
   \<and> rectangular [[1, 2], [3, 4 :: real]] 2 2
   \<and> determinant_meets_small ieee [[Finite 1, Finite 2], [Finite 2, Finite 4]]
   \<and> \<not> determinant_meets_small exact [[1, 2], [3, 4]]
   \<and> (\<exists>m v w. Matrix_from [[Finite 1, Finite 2], [Finite 2, Finite 4]] = Inr m
          \<and> determinant ieee [[Finite 1, Finite 2], [Finite 2, Finite 4]] = Inr v
          \<and> Matrix_determinant ieee m = Inr w)
   \<and> determinant ieee [[Finite 1, Finite 2], [Finite 2, Finite 4]] = Inr (Finite 0)
   \<and> (\<exists>m. Matrix_from [[1, 2], [3, 4]] = Inr m
          \<and> determinant exact [[1, 2], [3, 4]] = Matrix_determinant exact m)"
proof -
  have 1: "rectangular [[Finite 1, Finite 2], [Finite 2, Finite 4]] 2 2"
    and 2: "rectangular [[1, 2], [3, 4 :: real]] 2 2"
    by (simp_all add: rectangular_def)
  have 3: "determinant_meets_small ieee [[Finite 1, Finite 2], [Finite 2, Finite 4]]"
    by (simp add: determinant_meets_small_def determinant_defs ieee_eval)
  have 4: "\<not> determinant_meets_small exact [[1, 2], [3, 4]]"
    by (simp add: determinant_meets_small_def determinant_defs exact_eval)
  from determinants_agree_exact[OF 1 2, of ieee] 1 2 3 4 show ?thesis
    by (simp add: ieee_sel) blast
qed

end
